theory Spec2Isabelle
  imports Main "HOL-Library.Word"
begin

unbundle bit_operations_syntax

section \<open>The UNIX transport plugin (unix-io.c)\<close>

text \<open>
  The plugin maps the host's file operations onto the POSIX calls \<open>open\<close>, \<open>read\<close>,
  \<open>write\<close>, \<open>lseek\<close>, \<open>ftruncate\<close>, \<open>fsync\<close> and \<open>close\<close>. The calls themselves are
  the environment of the plugin; they are modelled below as functions on the state of one
  open file description. The C types are those of an LP64 platform: \<open>size_t\<close>,
  \<open>glong\<close> and \<open>off_t\<close> have 64 bits, \<open>gint\<close> and \<open>mode_t\<close> have 32 bits. File
  offsets and lengths stay far below \<open>2 ^ 63\<close>, so they are unbounded integers here.
  The diagnostics that the plugin prints on \<open>stderr\<close> are not part of the model.
\<close>

subsection \<open>One open file description\<close>

type_synonym byte = "8 word"

text \<open>
  What the environment does to the next transfer, truncation, sync or close: it lets the
  call run, it fails the call (\<open>EIO\<close>, \<open>EINTR\<close>, \<open>ENOSPC\<close>, \<open>EBADF\<close> for a descriptor
  opened without the access the call needs, ...), or it cuts a transfer short after at
  most \<open>Suc m\<close> bytes. A descriptor with no event left runs every call normally.
\<close>

datatype io_event = Proceed | Fault | Short nat

text \<open>The calls made on the descriptor, each with its arguments and its result.\<close>

datatype syscall =
    Sys_read nat int
  | Sys_write nat int
  | Sys_lseek int int int
  | Sys_ftruncate int int
  | Sys_fsync int
  | Sys_close int

record fd_state =
  bytes :: "byte list"
  offset :: nat
  append_mode :: bool
  seekable :: bool
  is_open :: bool
  events :: "io_event list"
  calls :: "syscall list"

definition next_event :: "fd_state \<Rightarrow> io_event" where
  "next_event f = (case events f of [] \<Rightarrow> Proceed | e # _ \<Rightarrow> e)"

definition consume :: "fd_state \<Rightarrow> fd_state" where
  "consume f = f\<lparr>events := tl (events f)\<rparr>"

definition record_call :: "syscall \<Rightarrow> fd_state \<Rightarrow> fd_state" where
  "record_call c f = f\<lparr>calls := calls f @ [c]\<rparr>"

fun allowance :: "io_event \<Rightarrow> nat \<Rightarrow> nat" where
  "allowance (Short m) c = min c (Suc m)"
| "allowance _ c = c"

definition SEEK_SET :: int where "SEEK_SET = 0"
definition SEEK_CUR :: int where "SEEK_CUR = 1"
definition SEEK_END :: int where "SEEK_END = 2"

text \<open>The sentinel \<open>EOF\<close> of \<open>stdio.h\<close>.\<close>

definition EOF :: int where "EOF = - 1"

text \<open>
  \<open>read (fd, buf, count)\<close>: the bytes from the file offset on, at most \<open>count\<close> of
  them; the offset moves past them. At or beyond the end of the data nothing is
  transferred and the result is 0. The result is \<open>- 1\<close> on an error.
\<close>

definition sys_read :: "fd_state \<Rightarrow> nat \<Rightarrow> int \<times> byte list \<times> fd_state" where
  "sys_read f count =
     (if \<not> is_open f then (- 1, [], record_call (Sys_read count (- 1)) f)
      else if next_event f = Fault
        then (- 1, [], record_call (Sys_read count (- 1)) (consume f))
      else
        (let data = take (allowance (next_event f) count) (drop (offset f) (bytes f));
             k = length data
         in (int k, data,
             record_call (Sys_read count (int k)) (consume (f\<lparr>offset := offset f + k\<rparr>)))))"

text \<open>
  \<open>write (fd, buf, count)\<close> with the \<open>count\<close> bytes of \<open>buf\<close> given as a list: at
  least one byte of a non-empty buffer is written unless the call fails. The bytes go
  to the file offset (to the end of the file with \<open>O_APPEND\<close>); a gap between the end
  of the file and the offset reads as zeros.
\<close>

definition sys_write :: "fd_state \<Rightarrow> byte list \<Rightarrow> int \<times> fd_state" where
  "sys_write f buf =
     (if \<not> is_open f then (- 1, record_call (Sys_write (length buf) (- 1)) f)
      else if next_event f = Fault
        then (- 1, record_call (Sys_write (length buf) (- 1)) (consume f))
      else
        (let k = allowance (next_event f) (length buf);
             at = (if append_mode f then length (bytes f) else offset f);
             old = bytes f @ replicate (at - length (bytes f)) 0;
             new = take at old @ take k buf @ drop (at + k) old
         in (int k,
             record_call (Sys_write (length buf) (int k))
               (consume (f\<lparr>bytes := new, offset := at + k\<rparr>)))))"

text \<open>
  \<open>lseek (fd, off, whence)\<close>: fails on a descriptor that cannot seek (a FIFO or a
  terminal: \<open>ESPIPE\<close>), on an unknown \<open>whence\<close> and on a negative resulting offset
  (\<open>EINVAL\<close>); otherwise it sets the offset and returns it. It has no transient errors.
  The plugin seeks with \<open>SEEK_SET\<close>, \<open>SEEK_CUR\<close> and \<open>SEEK_END\<close> only; the Linux
  extensions \<open>SEEK_DATA\<close> and \<open>SEEK_HOLE\<close> and offsets beyond the range of \<open>off_t\<close>
  are outside the model.
\<close>

definition sys_lseek :: "fd_state \<Rightarrow> int \<Rightarrow> int \<Rightarrow> int \<times> fd_state" where
  "sys_lseek f off whence =
     (let base =
            (if whence = SEEK_SET then Some 0
             else if whence = SEEK_CUR then Some (int (offset f))
             else if whence = SEEK_END then Some (int (length (bytes f)))
             else None)
      in case base of
           None \<Rightarrow> (- 1, record_call (Sys_lseek off whence (- 1)) f)
         | Some b \<Rightarrow>
             if \<not> is_open f \<or> \<not> seekable f \<or> b + off < 0
               then (- 1, record_call (Sys_lseek off whence (- 1)) f)
             else (b + off,
                   record_call (Sys_lseek off whence (b + off)) (f\<lparr>offset := nat (b + off)\<rparr>)))"

text \<open>
  \<open>ftruncate (fd, length)\<close>: fails on a negative length and on a descriptor that is
  not a regular file (\<open>EINVAL\<close>), or when the environment fails it; otherwise the file
  is cut or extended with zeros to the length. The file offset is not changed.
\<close>

definition sys_ftruncate :: "fd_state \<Rightarrow> int \<Rightarrow> int \<times> fd_state" where
  "sys_ftruncate f len =
     (if \<not> is_open f then (- 1, record_call (Sys_ftruncate len (- 1)) f)
      else if next_event f = Fault \<or> \<not> seekable f \<or> len < 0
        then (- 1, record_call (Sys_ftruncate len (- 1)) (consume f))
      else (0, record_call (Sys_ftruncate len 0)
                 (consume (f\<lparr>bytes := take (nat len) (bytes f)
                                        @ replicate (nat len - length (bytes f)) 0\<rparr>))))"

text \<open>
  \<open>fsync (fd)\<close> fails when the environment fails it and on a FIFO, pipe or socket,
  which cannot be synchronised (\<open>EINVAL\<close>).
\<close>

definition sys_fsync :: "fd_state \<Rightarrow> int \<times> fd_state" where
  "sys_fsync f =
     (if \<not> is_open f then (- 1, record_call (Sys_fsync (- 1)) f)
      else if next_event f = Fault \<or> \<not> seekable f
        then (- 1, record_call (Sys_fsync (- 1)) (consume f))
      else (0, record_call (Sys_fsync 0) (consume f)))"

text \<open>
  \<open>close (fd)\<close> releases an open descriptor whatever it returns (as Linux does, also when
  it reports \<open>EIO\<close> or \<open>EINTR\<close>).
\<close>

definition sys_close :: "fd_state \<Rightarrow> int \<times> fd_state" where
  "sys_close f =
     (if \<not> is_open f then (- 1, record_call (Sys_close (- 1)) f)
      else if next_event f = Fault
        then (- 1, record_call (Sys_close (- 1)) (consume (f\<lparr>is_open := False\<rparr>)))
      else (0, record_call (Sys_close 0) (consume (f\<lparr>is_open := False\<rparr>))))"

subsection \<open>The plugin's operations\<close>

text \<open>
  A \<open>VFSFile\<close> holds the descriptor number in \<open>file->handle\<close>; each operation below
  takes and returns the state of the descriptor that number names.
\<close>

type_synonym size_t = "64 word"

text \<open>The conversion of \<open>gint goal = size * nitems\<close>: the low 32 bits, read as signed.\<close>

definition to_gint :: "size_t \<Rightarrow> int" where
  "to_gint w = sint (ucast w :: 32 word)"

text \<open>
  The division \<open>total / size\<close> of two \<open>size_t\<close> values. A division by zero is
  undefined in C (on the usual platforms the process is killed by \<open>SIGFPE\<close>): it gives
  no value here. An operation that evaluates it returns nothing at all (\<open>None\<close>).
\<close>

definition udiv :: "size_t \<Rightarrow> size_t \<Rightarrow> size_t option" where
  "udiv a b = (if b = 0 then None else Some (a div b))"

definition unix_fclose :: "fd_state \<Rightarrow> int \<times> fd_state" where
  "unix_fclose f =
     (case sys_fsync f of (r, f1) \<Rightarrow>
        (let result = (if r = - 1 then EOF else 0)
         in case sys_close f1 of (_, f2) \<Rightarrow> (result, f2)))"

lemma sys_read_ge: "sys_read f c = (r, d, f') \<Longrightarrow> - 1 \<le> r"
  by (auto simp: sys_read_def Let_def split: if_splits)

text \<open>
  The loop of \<open>unix_fread\<close>. \<open>tot\<close> (the source's \<open>total\<close>) and \<open>goal\<close> are
  \<open>gint\<close>; \<open>got\<close> is what has been stored at \<open>ptr\<close> so far. \<open>tot\<close> stays between 0
  and the goal, which is below \<open>2 ^ 31\<close> (lemmas \<open>fread_loop_run\<close> and \<open>to_gint_less\<close>),
  so no addition wraps and the integers of the loop are unbounded here.
\<close>

function fread_loop :: "fd_state \<Rightarrow> int \<Rightarrow> int \<Rightarrow> byte list \<Rightarrow> int \<times> byte list \<times> fd_state" where
  "fread_loop f goal tot got =
     (if tot < goal then
        (case sys_read f (nat (goal - tot)) of (readed, data, f') \<Rightarrow>
           if readed = - 1 then (tot, got, f')
           else if readed = 0 then (tot, got, f')
           else fread_loop f' goal (tot + readed) (got @ data))
      else (tot, got, f))"
  by pat_completeness auto
termination
  by (relation "measure (\<lambda>(f, goal, tot, got). nat (goal - tot))")
     (auto dest: sys_read_ge [OF sym])

declare fread_loop.simps [simp del]

text \<open>
  \<open>unix_fread\<close> returns the value of \<open>(size > 0) ? total / size : 0\<close> with what is then
  in the buffer and the state of the descriptor, or nothing when the division is by
  zero.
\<close>

definition unix_fread ::
  "size_t \<Rightarrow> size_t \<Rightarrow> fd_state \<Rightarrow> (size_t \<times> byte list \<times> fd_state) option" where
  "unix_fread sz nitems f =
     (let goal = to_gint (sz * nitems)
      in case fread_loop f goal 0 [] of (tot, got, f') \<Rightarrow>
           (case (if sz > 0 then udiv (of_int tot) sz else Some 0) of
              None \<Rightarrow> None
            | Some r \<Rightarrow> Some (r, got, f')))"

lemma sys_write_ge: "sys_write f buf = (r, f') \<Longrightarrow> buf \<noteq> [] \<Longrightarrow> r = - 1 \<or> 1 \<le> r"
  by (cases "next_event f") (auto simp: sys_write_def Let_def Suc_le_eq split: if_splits)

text \<open>
  The loop of \<open>unix_fwrite\<close>; \<open>ptr\<close> is the caller's buffer, \<open>ptr i\<close> its byte at
  index \<open>i\<close>. Each call passes the \<open>goal - tot\<close> bytes from \<open>ptr + tot\<close> on.
\<close>

function fwrite_loop :: "fd_state \<Rightarrow> (nat \<Rightarrow> byte) \<Rightarrow> int \<Rightarrow> int \<Rightarrow> int \<times> fd_state" where
  "fwrite_loop f ptr goal tot =
     (if tot < goal then
        (case sys_write f (map (\<lambda>i. ptr (nat (tot + int i))) [0 ..< nat (goal - tot)])
         of (written, f') \<Rightarrow>
           if written = - 1 then (tot, f')
           else fwrite_loop f' ptr goal (tot + written))
      else (tot, f))"
  by pat_completeness auto
termination
  by (relation "measure (\<lambda>(f, ptr, goal, tot). nat (goal - tot))")
     (auto dest!: sys_write_ge [OF sym])

declare fwrite_loop.simps [simp del]

definition unix_fwrite ::
  "(nat \<Rightarrow> byte) \<Rightarrow> size_t \<Rightarrow> size_t \<Rightarrow> fd_state \<Rightarrow> (size_t \<times> fd_state) option" where
  "unix_fwrite ptr sz nitems f =
     (let goal = to_gint (sz * nitems)
      in case fwrite_loop f ptr goal 0 of (tot, f') \<Rightarrow>
           (case (if sz > 0 then udiv (of_int tot) sz else Some 0) of
              None \<Rightarrow> None
            | Some r \<Rightarrow> Some (r, f')))"

definition unix_fseek :: "fd_state \<Rightarrow> int \<Rightarrow> int \<Rightarrow> int \<times> fd_state" where
  "unix_fseek f off whence =
     (case sys_lseek f off whence of (r, f') \<Rightarrow> if r = - 1 then (- 1, f') else (0, f'))"

definition unix_ftell :: "fd_state \<Rightarrow> int \<times> fd_state" where
  "unix_ftell f = sys_lseek f 0 SEEK_CUR"

text \<open>
  \<open>unix_getc\<close> reads one element of one byte into \<open>c\<close>; when \<open>unix_fread\<close> returns 1
  the buffer holds exactly that byte (lemma \<open>getc_reads_once\<close>). \<open>unix_getc\<close> and
  \<open>unix_feof\<close> return nothing when the \<open>unix_fread\<close> they call returns nothing.
\<close>

definition unix_getc :: "fd_state \<Rightarrow> (int \<times> fd_state) option" where
  "unix_getc f =
     (case unix_fread 1 1 f of
        None \<Rightarrow> None
      | Some (n, c, f') \<Rightarrow> Some ((if n = 1 then uint (hd c) else EOF), f'))"

definition unix_ungetc :: "int \<Rightarrow> fd_state \<Rightarrow> int \<times> fd_state" where
  "unix_ungetc c f =
     (case unix_fseek f (- 1) SEEK_CUR of (r, f') \<Rightarrow> ((if r = 0 then c else EOF), f'))"

definition unix_rewind :: "fd_state \<Rightarrow> fd_state" where
  "unix_rewind f = snd (unix_fseek f 0 SEEK_SET)"

definition unix_feof :: "fd_state \<Rightarrow> (bool \<times> fd_state) option" where
  "unix_feof f =
     (case unix_getc f of
        None \<Rightarrow> None
      | Some (test, f1) \<Rightarrow>
          if test = EOF then Some (True, f1)
          else (case unix_ungetc test f1 of (_, f2) \<Rightarrow> Some (False, f2)))"

definition unix_truncate :: "fd_state \<Rightarrow> int \<Rightarrow> bool \<times> fd_state" where
  "unix_truncate f len =
     (case sys_ftruncate f len of (result, f') \<Rightarrow>
        if result = - 1 then (False, f') else (True, f'))"

definition unix_fsize :: "fd_state \<Rightarrow> int \<times> fd_state" where
  "unix_fsize f =
     (case unix_ftell f of (position, f1) \<Rightarrow>
        if position = - 1 then (- 1, f1)
        else (case unix_fseek f1 0 SEEK_END of (_, f2) \<Rightarrow>
          (case unix_ftell f2 of (len, f3) \<Rightarrow>
             if len = - 1 then (- 1, f3)
             else (case unix_fseek f3 position SEEK_SET of (_, f4) \<Rightarrow> (len, f4)))))"

subsection \<open>Opening\<close>

text \<open>
  The flags of \<open>fcntl.h\<close> and the permission bits of \<open>sys/stat.h\<close> with their values
  on Linux. \<open>mode_t mode_flag\<close> is a 32-bit word, \<open>|\<close> and \<open>&\<close> are \<open>OR\<close> and \<open>AND\<close>.
\<close>

definition O_RDONLY :: "32 word" where "O_RDONLY = 0"
definition O_WRONLY :: "32 word" where "O_WRONLY = 1"
definition O_RDWR :: "32 word" where "O_RDWR = 2"
definition O_CREAT :: "32 word" where "O_CREAT = 64"
definition O_TRUNC :: "32 word" where "O_TRUNC = 512"
definition O_APPEND :: "32 word" where "O_APPEND = 1024"

definition S_IRUSR :: "32 word" where "S_IRUSR = 256"
definition S_IWUSR :: "32 word" where "S_IWUSR = 128"
definition S_IRGRP :: "32 word" where "S_IRGRP = 32"
definition S_IROTH :: "32 word" where "S_IROTH = 4"

record VFSFile =
  handle :: int

text \<open>
  The calls \<open>unix_fopen\<close> makes: \<open>open\<close> with the file name, the flags and (only when
  passed) the permissions, and \<open>fcntl (handle, F_SETFD, FD_CLOEXEC)\<close>.
\<close>

datatype os_call =
    Call_open string "32 word" "32 word option"
  | Call_fcntl_cloexec int

text \<open>
  The \<open>switch\<close> over \<open>mode[0]\<close>; \<open>None\<close> is its \<open>default\<close> branch, which returns
  \<open>NULL\<close>. A C string ends at its first NUL, so \<open>mode[0]\<close> of the empty string is
  NUL and takes the default branch. \<open>update\<close> is \<open>strchr (mode, '+') != NULL\<close>.
\<close>

definition mode_flag_of :: "string \<Rightarrow> 32 word option" where
  "mode_flag_of mode =
     (let update = (CHR ''+'' \<in> set mode)
      in case mode of
           [] \<Rightarrow> None
         | c # _ \<Rightarrow>
             if c = CHR ''r'' then Some (if update then O_RDWR else O_RDONLY)
             else if c = CHR ''w''
               then Some ((if update then O_RDWR else O_WRONLY) OR O_CREAT OR O_TRUNC)
             else if c = CHR ''a''
               then Some ((if update then O_RDWR else O_WRONLY) OR O_CREAT OR O_APPEND)
             else None)"

text \<open>
  \<open>unix_fopen\<close>, with GLib's \<open>g_filename_from_uri\<close> (\<open>None\<close> for its \<open>NULL\<close>) and the
  answer of the system's \<open>open\<close> as parameters. The result is the file (\<open>None\<close> for
  \<open>NULL\<close>) and the calls made, in order.
\<close>

definition unix_fopen ::
  "(string \<Rightarrow> string option) \<Rightarrow> (string \<Rightarrow> 32 word \<Rightarrow> 32 word option \<Rightarrow> int)
     \<Rightarrow> string \<Rightarrow> string \<Rightarrow> VFSFile option \<times> os_call list" where
  "unix_fopen g_filename_from_uri sys_open uri mode =
     (case mode_flag_of mode of
        None \<Rightarrow> (None, [])
      | Some mode_flag \<Rightarrow>
          (case g_filename_from_uri uri of
             None \<Rightarrow> (None, [])
           | Some filename \<Rightarrow>
               (let perms =
                      (if mode_flag AND O_CREAT \<noteq> 0
                       then Some (S_IRUSR OR S_IWUSR OR S_IRGRP OR S_IROTH) else None);
                    h = sys_open filename mode_flag perms
                in if h = - 1 then (None, [Call_open filename mode_flag perms])
                   else (Some \<lparr>handle = h\<rparr>,
                         [Call_open filename mode_flag perms, Call_fcntl_cloexec h]))))"

section \<open>The playlist view helpers\<close>

subsection \<open>The host's playlists\<close>

text \<open>
  The playlists live in the host and are reached through the functions
  \<open>aud_playlist_...\<close> of \<open>audacious/plugin.h\<close>, which are the environment of the
  helpers. What the helpers use of a playlist is the selected flag of each of its entries,
  and of the host whether an update is pending. An entry outside the playlist is never
  selected, and selecting it changes nothing.
\<close>

record host =
  selected_flags :: "int \<Rightarrow> bool list"
  update_pending :: bool

definition aud_playlist_entry_count :: "host \<Rightarrow> int \<Rightarrow> int" where
  "aud_playlist_entry_count h list = int (length (selected_flags h list))"

definition aud_playlist_entry_get_selected :: "host \<Rightarrow> int \<Rightarrow> int \<Rightarrow> bool" where
  "aud_playlist_entry_get_selected h list entry =
     (0 \<le> entry \<and> entry < aud_playlist_entry_count h list
      \<and> selected_flags h list ! nat entry)"

definition aud_playlist_entry_set_selected :: "host \<Rightarrow> int \<Rightarrow> int \<Rightarrow> bool \<Rightarrow> host" where
  "aud_playlist_entry_set_selected h list entry v =
     (if 0 \<le> entry \<and> entry < aud_playlist_entry_count h list
      then h\<lparr>selected_flags := (selected_flags h)
                 (list := (selected_flags h list)[nat entry := v])\<rparr>
      else h)"

definition aud_playlist_select_all :: "host \<Rightarrow> int \<Rightarrow> bool \<Rightarrow> host" where
  "aud_playlist_select_all h list v =
     h\<lparr>selected_flags := (selected_flags h)
          (list := replicate (length (selected_flags h list)) v)\<rparr>"

definition aud_playlist_update_pending :: "host \<Rightarrow> bool" where
  "aud_playlist_update_pending h = update_pending h"

subsection \<open>The tree view\<close>

text \<open>
  Modelled from the spec: \<open>UiPlaylistModel\<close> is declared in \<open>ui_playlist_model.h\<close>,
  which is not among the sources. It holds the index of the playlist that the view
  shows, the deferred flags "focus changed" and "selection changed", and the pending
  focus row; these are the fields that the helpers read and write.
\<close>

record UiPlaylistModel =
  playlist :: int
  focus_changed :: bool
  selection_changed :: bool
  focus :: int

text \<open>
  The state of a \<open>GtkTreeView\<close> on such a model: one selected flag per row of the view
  (its \<open>GtkTreeSelection\<close>, in the mode \<open>GTK_SELECTION_MULTIPLE\<close>), the cursor row,
  whether the widget's update notifications are blocked, and the calls made on the
  widget. No signal handler runs inside a call.
\<close>

datatype gui_call =
    Block_updates bool
  | Set_cursor int
  | Scroll_to_cell int
  | Select_iter "nat option"
  | Unselect_iter "nat option"

record tree_view =
  model :: UiPlaylistModel
  row_selected :: "bool list"
  cursor :: "int option"
  updates_blocked :: bool
  gui_calls :: "gui_call list"

definition gui_call :: "gui_call \<Rightarrow> tree_view \<Rightarrow> tree_view" where
  "gui_call c t = t\<lparr>gui_calls := gui_calls t @ [c]\<rparr>"

text \<open>
  Modelled from the spec: \<open>ui_playlist_widget_block_updates\<close> is defined in
  \<open>ui_playlist_widget.c\<close>, which is not among the sources. It suppresses (\<open>TRUE\<close>) or
  restores (\<open>FALSE\<close>) the widget's update notifications.
\<close>

definition ui_playlist_widget_block_updates :: "tree_view \<Rightarrow> bool \<Rightarrow> tree_view" where
  "ui_playlist_widget_block_updates t block =
     gui_call (Block_updates block) (t\<lparr>updates_blocked := block\<rparr>)"

text \<open>
  A \<open>GtkTreeIter\<close> is a row of the view, or invalid (\<open>None\<close>). Selecting or
  unselecting through an invalid iterator changes nothing.
\<close>

definition gtk_tree_model_get_iter_first :: "tree_view \<Rightarrow> nat option" where
  "gtk_tree_model_get_iter_first t = (if row_selected t = [] then None else Some 0)"

definition gtk_tree_model_iter_next :: "tree_view \<Rightarrow> nat option \<Rightarrow> nat option" where
  "gtk_tree_model_iter_next t iter =
     (case iter of
        None \<Rightarrow> None
      | Some i \<Rightarrow> if Suc i < length (row_selected t) then Some (Suc i) else None)"

definition set_row :: "tree_view \<Rightarrow> nat option \<Rightarrow> bool \<Rightarrow> tree_view" where
  "set_row t iter v =
     (case iter of
        None \<Rightarrow> t
      | Some i \<Rightarrow>
          if i < length (row_selected t) then t\<lparr>row_selected := (row_selected t)[i := v]\<rparr>
          else t)"

definition gtk_tree_selection_select_iter :: "tree_view \<Rightarrow> nat option \<Rightarrow> tree_view" where
  "gtk_tree_selection_select_iter t iter = gui_call (Select_iter iter) (set_row t iter True)"

definition gtk_tree_selection_unselect_iter :: "tree_view \<Rightarrow> nat option \<Rightarrow> tree_view" where
  "gtk_tree_selection_unselect_iter t iter = gui_call (Unselect_iter iter) (set_row t iter False)"

text \<open>
  \<open>gtk_tree_view_set_cursor\<close> on the path of one index: on a row of the view it moves
  the cursor there and makes that row the only selected one; on a path that names no
  row it unsets the cursor and leaves the selection. \<open>gtk_tree_view_scroll_to_cell\<close>
  changes nothing that is modelled.
\<close>

definition gtk_tree_view_set_cursor :: "tree_view \<Rightarrow> int \<Rightarrow> tree_view" where
  "gtk_tree_view_set_cursor t row =
     gui_call (Set_cursor row)
       (if 0 \<le> row \<and> row < int (length (row_selected t))
        then t\<lparr>cursor := Some row,
               row_selected := (replicate (length (row_selected t)) False)[nat row := True]\<rparr>
        else t\<lparr>cursor := None\<rparr>)"

definition gtk_tree_view_scroll_to_cell :: "tree_view \<Rightarrow> int \<Rightarrow> tree_view" where
  "gtk_tree_view_scroll_to_cell t row = gui_call (Scroll_to_cell row) t"

subsection \<open>The helpers\<close>

text \<open>The loop of \<open>playlist_select_range\<close>, from \<open>count\<close> on.\<close>

function select_range_loop :: "host \<Rightarrow> int \<Rightarrow> int \<Rightarrow> int \<Rightarrow> int \<Rightarrow> host" where
  "select_range_loop h list top_row len count =
     (if count < len
      then select_range_loop (aud_playlist_entry_set_selected h list (top_row + count) True)
             list top_row len (count + 1)
      else h)"
  by pat_completeness auto
termination
  by (relation "measure (\<lambda>(h, list, top_row, len, count). nat (len - count))") auto

declare select_range_loop.simps [simp del]

definition playlist_select_range :: "host \<Rightarrow> int \<Rightarrow> int \<Rightarrow> int \<Rightarrow> host" where
  "playlist_select_range h list top_row len =
     select_range_loop (aud_playlist_select_all h list False) list top_row len 0"

text \<open>The loop of \<open>playlist_count_selected_in_range\<close>, from \<open>count\<close> on.\<close>

function count_selected_loop :: "host \<Rightarrow> int \<Rightarrow> int \<Rightarrow> int \<Rightarrow> int \<Rightarrow> int \<Rightarrow> int" where
  "count_selected_loop h list top_row len count selected =
     (if count < len
      then count_selected_loop h list top_row len (count + 1)
             (if aud_playlist_entry_get_selected h list (top_row + count)
              then selected + 1 else selected)
      else selected)"
  by pat_completeness auto
termination
  by (relation "measure (\<lambda>(h, list, top_row, len, count, selected). nat (len - count))") auto

declare count_selected_loop.simps [simp del]

definition playlist_count_selected_in_range :: "host \<Rightarrow> int \<Rightarrow> int \<Rightarrow> int \<Rightarrow> int" where
  "playlist_count_selected_in_range h list top_row len = count_selected_loop h list top_row len 0 0"

text \<open>The loop of \<open>treeview_refresh_selection_now\<close>, from \<open>count\<close> on.\<close>

function refresh_selection_loop ::
  "host \<Rightarrow> int \<Rightarrow> int \<Rightarrow> nat option \<Rightarrow> tree_view \<Rightarrow> tree_view" where
  "refresh_selection_loop h entries count iter t =
     (if count < entries
      then
        (let t' = (if aud_playlist_entry_get_selected h (playlist (model t)) count
                   then gtk_tree_selection_select_iter t iter
                   else gtk_tree_selection_unselect_iter t iter)
         in refresh_selection_loop h entries (count + 1) (gtk_tree_model_iter_next t' iter) t')
      else t)"
  by pat_completeness auto
termination
  by (relation "measure (\<lambda>(h, entries, count, iter, t). nat (entries - count))") auto

declare refresh_selection_loop.simps [simp del]

definition treeview_refresh_selection_now :: "host \<Rightarrow> tree_view \<Rightarrow> tree_view" where
  "treeview_refresh_selection_now h t =
     (let entries = aud_playlist_entry_count h (playlist (model t))
      in if entries = 0 then t
         else refresh_selection_loop h entries 0 (gtk_tree_model_get_iter_first t) t)"

definition treeview_set_focus_now :: "host \<Rightarrow> tree_view \<Rightarrow> int \<Rightarrow> tree_view" where
  "treeview_set_focus_now h t focus0 =
     (if focus0 < 0 \<and> aud_playlist_entry_count h (playlist (model t)) = 0 then t
      else
        (let focus1 = (if focus0 < 0 then 0 else focus0);
             t1 = gtk_tree_view_set_cursor t focus1;
             t2 = gtk_tree_view_scroll_to_cell t1 focus1
         in treeview_refresh_selection_now h t2))"

definition treeview_set_focus :: "host \<Rightarrow> tree_view \<Rightarrow> int \<Rightarrow> tree_view" where
  "treeview_set_focus h t focus0 =
     (if aud_playlist_update_pending h
      then t\<lparr>model := (model t)\<lparr>focus_changed := True, focus := focus0\<rparr>\<rparr>
      else
        (let t1 = ui_playlist_widget_block_updates t True;
             t2 = treeview_set_focus_now h t1 focus0
         in ui_playlist_widget_block_updates t2 False))"

definition treeview_refresh_selection :: "host \<Rightarrow> tree_view \<Rightarrow> tree_view" where
  "treeview_refresh_selection h t =
     (if aud_playlist_update_pending h
      then t\<lparr>model := (model t)\<lparr>selection_changed := True\<rparr>\<rparr>
      else
        (let t1 = ui_playlist_widget_block_updates t True;
             t2 = treeview_refresh_selection_now h t1
         in ui_playlist_widget_block_updates t2 False))"

section \<open>Notions and concrete inputs of the statements\<close>

subsection \<open>For the transport plugin\<close>

text \<open>
  A regular file with the given contents, file offset and pending events, and a FIFO
  (which cannot seek) with the given bytes still to be read.
\<close>

definition regular_file :: "byte list \<Rightarrow> nat \<Rightarrow> io_event list \<Rightarrow> fd_state" where
  "regular_file bs pos evs =
     \<lparr>bytes = bs, offset = pos, append_mode = False, seekable = True, is_open = True,
      events = evs, calls = []\<rparr>"

definition fifo :: "byte list \<Rightarrow> io_event list \<Rightarrow> fd_state" where
  "fifo bs evs =
     \<lparr>bytes = bs, offset = 0, append_mode = False, seekable = False, is_open = True,
      events = evs, calls = []\<rparr>"

text \<open>The bytes moved by the transfers among the calls \<open>cs\<close>.\<close>

fun moved :: "syscall \<Rightarrow> int" where
  "moved (Sys_read c r) = max 0 r"
| "moved (Sys_write c r) = max 0 r"
| "moved c = 0"

definition transferred :: "syscall list \<Rightarrow> int" where
  "transferred cs = sum_list (map moved cs)"

definition new_calls :: "fd_state \<Rightarrow> fd_state \<Rightarrow> syscall list" where
  "new_calls f f' = drop (length (calls f)) (calls f')"

text \<open>
  What one \<open>open\<close> call with the flags \<open>fl\<close> and the permissions \<open>p\<close> leads to:
  \<open>NULL\<close> when it returns \<open>- 1\<close>, and otherwise the file on the descriptor, which is
  set close-on-exec.
\<close>

definition opened_with ::
  "(string \<Rightarrow> 32 word \<Rightarrow> 32 word option \<Rightarrow> int) \<Rightarrow> string \<Rightarrow> 32 word \<Rightarrow> 32 word option
     \<Rightarrow> VFSFile option \<times> os_call list" where
  "opened_with sys_open fn fl p =
     (if sys_open fn fl p = - 1 then (None, [Call_open fn fl p])
      else (Some \<lparr>handle = sys_open fn fl p\<rparr>,
            [Call_open fn fl p, Call_fcntl_cloexec (sys_open fn fl p)]))"

definition rw_r_r :: "32 word option" where
  "rw_r_r = Some (S_IRUSR OR S_IWUSR OR S_IRGRP OR S_IROTH)"

text \<open>A URI decoder and an \<open>open\<close> that knows one file, as concrete inputs.\<close>

definition file_uri :: "string \<Rightarrow> string option" where
  "file_uri uri = (if take 7 uri = ''file://'' then Some (drop 7 uri) else None)"

definition open_tmp_a :: "string \<Rightarrow> 32 word \<Rightarrow> 32 word option \<Rightarrow> int" where
  "open_tmp_a fn fl p = (if fn = ''/tmp/a'' then 3 else - 1)"

subsection \<open>For the playlist view helpers\<close>

text \<open>A host with one playlist of five entries, the first and the last selected.\<close>

definition five_entries :: host where
  "five_entries =
     \<lparr>selected_flags = (\<lambda>list. if list = 0 then [True, False, False, False, True] else []),
      update_pending = False\<rparr>"

text \<open>
  A view on playlist 0 of \<open>five_entries\<close> whose rows 1 to 3 are selected and whose
  cursor is on row 2.
\<close>

definition five_rows :: tree_view where
  "five_rows =
     \<lparr>model = \<lparr>playlist = 0, focus_changed = False, selection_changed = False, focus = 0\<rparr>,
      row_selected = [False, True, True, True, False], cursor = Some 2,
      updates_blocked = False, gui_calls = []\<rparr>"

text \<open>The host \<open>five_entries\<close> in the middle of an update.\<close>

definition five_entries_updating :: host where
  "five_entries_updating = five_entries\<lparr>update_pending := True\<rparr>"

text \<open>The calls made on the widget between the state \<open>t\<close> and the later state \<open>t'\<close>.\<close>

definition calls_since :: "tree_view \<Rightarrow> tree_view \<Rightarrow> gui_call list" where
  "calls_since t t' = drop (length (gui_calls t)) (gui_calls t')"

fun is_block :: "gui_call \<Rightarrow> bool" where
  "is_block (Block_updates b) = True"
| "is_block c = False"

section \<open>Properties of the transport plugin\<close>

subsection \<open>Facts about the calls\<close>

lemmas sys_defs =
  sys_read_def sys_write_def sys_lseek_def sys_ftruncate_def sys_fsync_def sys_close_def
  record_call_def consume_def

lemma allowance_pos: "0 < c \<Longrightarrow> 0 < allowance e c"
  by (cases e) auto

lemma allowance_le: "allowance e c \<le> c"
  by (cases e) auto

lemma sys_read_one:
  "sys_read f (Suc 0) = (r, d, f') \<Longrightarrow>
     (r = - 1 \<and> d = []) \<or> (r = 0 \<and> d = []) \<or> (r = 1 \<and> length d = 1)"
  by (cases "next_event f") (auto simp: sys_read_def Let_def min_def split: if_splits)

lemma sys_read_nothing_iff:
  "is_open f \<Longrightarrow> next_event f \<noteq> Fault \<Longrightarrow> 0 < c \<Longrightarrow>
     fst (sys_read f c) = 0 \<longleftrightarrow> length (bytes f) \<le> offset f"
  using allowance_pos [of c "next_event f"] by (auto simp: sys_read_def Let_def)

text \<open>The two loops, one round at a time.\<close>

lemma fread_loop_done: "goal \<le> tot \<Longrightarrow> fread_loop f goal tot got = (tot, got, f)"
  by (simp add: fread_loop.simps)

lemma fread_loop_step:
  "tot < goal \<Longrightarrow>
     fread_loop f goal tot got =
       (case sys_read f (nat (goal - tot)) of (readed, data, f') \<Rightarrow>
          if readed = - 1 then (tot, got, f')
          else if readed = 0 then (tot, got, f')
          else fread_loop f' goal (tot + readed) (got @ data))"
  by (subst fread_loop.simps) simp

lemma fwrite_loop_done: "goal \<le> tot \<Longrightarrow> fwrite_loop f ptr goal tot = (tot, f)"
  by (simp add: fwrite_loop.simps)

lemma fwrite_loop_step:
  "tot < goal \<Longrightarrow>
     fwrite_loop f ptr goal tot =
       (case sys_write f (map (\<lambda>i. ptr (nat (tot + int i))) [0 ..< nat (goal - tot)])
        of (written, f') \<Rightarrow>
          if written = - 1 then (tot, f')
          else fwrite_loop f' ptr goal (tot + written))"
  by (subst fwrite_loop.simps) simp

subsection \<open>Sizes of zero\<close>

text \<open>
  C10. A read or a write with element size 0 returns 0 whatever the element count: the
  byte goal \<open>0 * nitems\<close> is 0, so the loop makes no call at all and leaves the
  descriptor as it was, and the guard \<open>size > 0\<close> keeps the division \<open>total / 0\<close>,
  which has no value, from being evaluated: the call returns a value, and that value
  is 0. For every size and count the two operations return a value: the division is
  only evaluated with a divisor that is not zero.
\<close>

theorem zero_size_transfers_nothing:
  "unix_fread 0 nitems f = Some (0, [], f)
   \<and> unix_fwrite ptr 0 nitems f = Some (0, f)
   \<and> udiv a 0 = None
   \<and> unix_fread sz nitems f \<noteq> None
   \<and> unix_fwrite ptr sz nitems f \<noteq> None"
proof -
  have "unix_fread 0 nitems f = Some (0, [], f)"
    and "unix_fwrite ptr 0 nitems f = Some (0, f)"
    by (simp_all add: unix_fread_def unix_fwrite_def to_gint_def fread_loop_done
          fwrite_loop_done)
  moreover have "udiv a 0 = None"
    by (simp add: udiv_def)
  moreover have "unix_fread sz nitems f \<noteq> None"
    by (cases "sz = 0")
       (auto simp: unix_fread_def Let_def udiv_def word_greater_zero_iff split: prod.splits)
  moreover have "unix_fwrite ptr sz nitems f \<noteq> None"
    by (cases "sz = 0")
       (auto simp: unix_fwrite_def Let_def udiv_def word_greater_zero_iff split: prod.splits)
  ultimately show ?thesis by blast
qed

subsection \<open>Closing\<close>

text \<open>
  C9. On an open handle \<open>unix_fclose\<close> calls \<open>fsync\<close> and then \<open>close\<close>, in this order
  and nothing else. It returns \<open>EOF\<close> exactly when the \<open>fsync\<close> failed and 0 otherwise
  (the result of \<open>close\<close> is not looked at), and the descriptor is closed afterwards on
  both paths.
\<close>

theorem fclose_syncs_then_closes:
  assumes "is_open f" and "unix_fclose f = (r, f')"
  shows "(r = EOF \<longleftrightarrow> fst (sys_fsync f) = - 1) \<and> (r = EOF \<or> r = 0) \<and> \<not> is_open f'
    \<and> calls f' = calls f @ [Sys_fsync (fst (sys_fsync f)),
                             Sys_close (fst (sys_close (snd (sys_fsync f))))]"
  using assms
  by (auto simp: unix_fclose_def sys_fsync_def sys_close_def record_call_def consume_def
        EOF_def Let_def split: if_splits prod.splits)

theorem fclose_syncs_then_closes_witness:
  "is_open (regular_file [1, 2, 3] 2 [Fault])
   \<and> fst (unix_fclose (regular_file [1, 2, 3] 2 [Fault])) = EOF
   \<and> \<not> is_open (snd (unix_fclose (regular_file [1, 2, 3] 2 [Fault])))
   \<and> calls (snd (unix_fclose (regular_file [1, 2, 3] 2 [Fault]))) = [Sys_fsync (- 1), Sys_close 0]
   \<and> fst (unix_fclose (regular_file [1, 2, 3] 2 [])) = 0
   \<and> \<not> is_open (snd (unix_fclose (regular_file [1, 2, 3] 2 [])))
   \<and> calls (snd (unix_fclose (regular_file [1, 2, 3] 2 []))) = [Sys_fsync 0, Sys_close 0]"
proof -
  have o1: "is_open (regular_file [1, 2, 3] 2 [Fault])"
    and o2: "is_open (regular_file [1, 2, 3] 2 [])"
    by (simp_all add: regular_file_def)
  have s1: "fst (sys_fsync (regular_file [1, 2, 3] 2 [Fault])) = - 1"
    and c1: "fst (sys_close (snd (sys_fsync (regular_file [1, 2, 3] 2 [Fault])))) = 0"
    and k1: "calls (regular_file [1, 2, 3] 2 [Fault]) = []"
    and s2: "fst (sys_fsync (regular_file [1, 2, 3] 2 [])) = 0"
    and c2: "fst (sys_close (snd (sys_fsync (regular_file [1, 2, 3] 2 [])))) = 0"
    and k2: "calls (regular_file [1, 2, 3] 2 []) = []"
    by (simp_all add: regular_file_def sys_defs next_event_def)
  show ?thesis
    using o1 o2
      fclose_syncs_then_closes [OF o1 surjective_pairing]
      fclose_syncs_then_closes [OF o2 surjective_pairing]
    by (auto simp: s1 c1 k1 s2 c2 k2 EOF_def)
qed

subsection \<open>Truncating and measuring\<close>

text \<open>
  C4. On an open handle with the file position \<open>p\<close>, when \<open>unix_truncate\<close> to the
  length \<open>L\<close> succeeds, a following \<open>unix_fsize\<close> returns \<open>L\<close>, and the file position is
  \<open>p\<close> after the truncation and again after the size query.
\<close>

theorem truncate_then_size:
  assumes "is_open f" and "unix_truncate f L = (True, f1)" and "unix_fsize f1 = (r, f2)"
  shows "r = L \<and> offset f1 = offset f \<and> offset f2 = offset f"
  using assms
  by (auto simp: unix_truncate_def unix_fsize_def unix_ftell_def unix_fseek_def sys_defs
        SEEK_SET_def SEEK_CUR_def SEEK_END_def Let_def split: if_splits prod.splits)

theorem truncate_then_size_witness:
  "is_open (regular_file [1, 2, 3, 4, 5] 4 [])
   \<and> fst (unix_truncate (regular_file [1, 2, 3, 4, 5] 4 []) 2) = True
   \<and> fst (unix_fsize (snd (unix_truncate (regular_file [1, 2, 3, 4, 5] 4 []) 2))) = 2
   \<and> offset (snd (unix_truncate (regular_file [1, 2, 3, 4, 5] 4 []) 2)) = 4
   \<and> offset (snd (unix_fsize (snd (unix_truncate (regular_file [1, 2, 3, 4, 5] 4 []) 2)))) = 4"
proof -
  have o: "is_open (regular_file [1, 2, 3, 4, 5] 4 [])"
    and p: "offset (regular_file [1, 2, 3, 4, 5] 4 []) = 4"
    by (simp_all add: regular_file_def)
  have t: "unix_truncate (regular_file [1, 2, 3, 4, 5] 4 []) 2
             = (True, snd (unix_truncate (regular_file [1, 2, 3, 4, 5] 4 []) 2))"
    by (simp add: unix_truncate_def regular_file_def sys_defs next_event_def)
  have t': "fst (unix_truncate (regular_file [1, 2, 3, 4, 5] 4 []) 2)"
    by (simp add: unix_truncate_def regular_file_def sys_defs next_event_def)
  show ?thesis
    using o t' truncate_then_size [OF o t surjective_pairing] by (simp add: p)
qed

text \<open>
  C5 as stated fails for the truncation: \<open>unix_truncate\<close> makes one \<open>ftruncate\<close> call
  and no seek at all. It also fails for the size on a descriptor that cannot seek: on a
  FIFO \<open>unix_fsize\<close> makes one \<open>lseek\<close>, which fails, and returns \<open>- 1\<close> without a seek
  to the end or back.
\<close>

theorem truncate_seeks_counterexample:
  "calls (snd (unix_truncate (regular_file [1, 2, 3] 2 []) 2)) = [Sys_ftruncate 2 0]
   \<and> fst (unix_truncate (regular_file [1, 2, 3] 2 []) 2) = True
   \<and> unix_fsize (fifo [1, 2, 3] [])
       = (- 1, (fifo [1, 2, 3] [])\<lparr>calls := [Sys_lseek 0 SEEK_CUR (- 1)]\<rparr>)"
  by code_simp

text \<open>
  C5, amended. On an open descriptor that can seek, the size is computed by the sequence
  save position, seek to the end, read the position there, seek back: \<open>unix_fsize\<close>
  makes exactly these four \<open>lseek\<close> calls and returns the length. On every other
  descriptor (one that cannot seek, such as a FIFO, or a closed one) the first \<open>lseek\<close>
  fails and \<open>unix_fsize\<close> returns \<open>- 1\<close> after this single call. The truncation is no
  such sequence on any descriptor: \<open>unix_truncate\<close> makes the single call \<open>ftruncate\<close>
  and no seek.
\<close>

theorem fsize_seek_sequence:
  "(is_open f \<and> seekable f \<longrightarrow>
      unix_fsize f =
        (int (length (bytes f)),
         f\<lparr>calls := calls f @
            [Sys_lseek 0 SEEK_CUR (int (offset f)),
             Sys_lseek 0 SEEK_END (int (length (bytes f))),
             Sys_lseek 0 SEEK_CUR (int (length (bytes f))),
             Sys_lseek (int (offset f)) SEEK_SET (int (offset f))]\<rparr>))
   \<and> (\<not> (is_open f \<and> seekable f) \<longrightarrow>
      unix_fsize f = (- 1, f\<lparr>calls := calls f @ [Sys_lseek 0 SEEK_CUR (- 1)]\<rparr>))
   \<and> calls (snd (unix_truncate f len))
       = calls f @ [Sys_ftruncate len (fst (sys_ftruncate f len))]"
proof (intro conjI impI)
  assume "is_open f \<and> seekable f"
  then show "unix_fsize f =
        (int (length (bytes f)),
         f\<lparr>calls := calls f @
            [Sys_lseek 0 SEEK_CUR (int (offset f)),
             Sys_lseek 0 SEEK_END (int (length (bytes f))),
             Sys_lseek 0 SEEK_CUR (int (length (bytes f))),
             Sys_lseek (int (offset f)) SEEK_SET (int (offset f))]\<rparr>)"
    by (auto simp: unix_fsize_def unix_ftell_def unix_fseek_def sys_defs
          SEEK_SET_def SEEK_CUR_def SEEK_END_def Let_def split: if_splits prod.splits)
next
  assume "\<not> (is_open f \<and> seekable f)"
  then show "unix_fsize f = (- 1, f\<lparr>calls := calls f @ [Sys_lseek 0 SEEK_CUR (- 1)]\<rparr>)"
    by (auto simp: unix_fsize_def unix_ftell_def unix_fseek_def sys_defs
          SEEK_SET_def SEEK_CUR_def SEEK_END_def Let_def split: if_splits prod.splits)
next
  show "calls (snd (unix_truncate f len))
       = calls f @ [Sys_ftruncate len (fst (sys_ftruncate f len))]"
    by (auto simp: unix_truncate_def sys_defs split: if_splits prod.splits)
qed

theorem fsize_seek_sequence_witness:
  "unix_fsize (regular_file [1, 2, 3] 2 []) =
       (3, (regular_file [1, 2, 3] 2 [])
            \<lparr>calls := [Sys_lseek 0 SEEK_CUR 2, Sys_lseek 0 SEEK_END 3,
                       Sys_lseek 0 SEEK_CUR 3, Sys_lseek 2 SEEK_SET 2]\<rparr>)
   \<and> unix_fsize (fifo [1, 2, 3] [])
       = (- 1, (fifo [1, 2, 3] [])\<lparr>calls := [Sys_lseek 0 SEEK_CUR (- 1)]\<rparr>)
   \<and> calls (snd (unix_truncate (regular_file [1, 2, 3] 2 []) 5)) = [Sys_ftruncate 5 0]
   \<and> calls (snd (unix_truncate (fifo [1, 2, 3] []) 5)) = [Sys_ftruncate 5 (- 1)]"
proof -
  have o: "is_open (regular_file [1, 2, 3] 2 []) \<and> seekable (regular_file [1, 2, 3] 2 [])"
    and n: "\<not> (is_open (fifo [1, 2, 3] []) \<and> seekable (fifo [1, 2, 3] []))"
    by (simp_all add: regular_file_def fifo_def)
  have e: "fst (sys_ftruncate (regular_file [1, 2, 3] 2 []) 5) = 0"
    "fst (sys_ftruncate (fifo [1, 2, 3] []) 5) = - 1"
    "calls (regular_file [1, 2, 3] 2 []) = []"
    "calls (fifo [1, 2, 3] []) = []"
    "bytes (regular_file [1, 2, 3] 2 []) = [1, 2, 3]"
    "offset (regular_file [1, 2, 3] 2 []) = 2"
    by (simp_all add: regular_file_def fifo_def sys_defs next_event_def)
  show ?thesis
    using o n fsize_seek_sequence [of "regular_file [1, 2, 3] 2 []" 5]
      fsize_seek_sequence [of "fifo [1, 2, 3] []" 5]
    by (simp add: e)
qed

subsection \<open>The end-of-file test\<close>

lemma fread_one:
  "fread_loop f 1 0 [] =
     (case sys_read f 1 of (r, d, f') \<Rightarrow> ((if r = 1 then 1 else 0), d, f'))"
proof -
  obtain r d f' where s: "sys_read f (Suc 0) = (r, d, f')"
    by (metis prod_cases3)
  from sys_read_one [OF s] show ?thesis
    by (auto simp: fread_loop_step fread_loop_done s)
qed

lemma getc_reads_once:
  "unix_getc f =
     (case sys_read f 1 of (r, d, f') \<Rightarrow> Some ((if r = 1 then uint (hd d) else EOF), f'))"
  by (simp add: unix_getc_def unix_fread_def to_gint_def fread_one udiv_def
        split: prod.splits)

lemma uint_byte_not_EOF: "uint (b :: byte) \<noteq> EOF"
proof
  assume "uint b = EOF"
  then have "uint b < 0" by (simp add: EOF_def)
  then show False by simp
qed

lemma feof_unfolded:
  "unix_feof f =
     (case sys_read f 1 of (r, d, f1) \<Rightarrow>
        Some (if r = 1 then (False, snd (sys_lseek f1 (- 1) SEEK_CUR)) else (True, f1)))"
  by (auto simp: unix_feof_def getc_reads_once unix_ungetc_def unix_fseek_def
        uint_byte_not_EOF split: prod.splits)

text \<open>What \<open>unix_feof\<close> does on an open descriptor, branch by branch.\<close>

lemma feof_result:
  assumes "is_open f"
  shows "unix_feof f = Some
    (if next_event f = Fault then (True, record_call (Sys_read 1 (- 1)) (consume f))
     else if length (bytes f) \<le> offset f
       then (True, record_call (Sys_read 1 0) (consume f))
     else if seekable f
       then (False, record_call (Sys_lseek (- 1) SEEK_CUR (int (offset f)))
                      (record_call (Sys_read 1 1) (consume f)))
     else (False, record_call (Sys_lseek (- 1) SEEK_CUR (- 1))
                    (record_call (Sys_read 1 1) (consume (f\<lparr>offset := offset f + 1\<rparr>)))))"
  using assms allowance_pos [of 1 "next_event f"]
  by (cases "next_event f")
     (auto simp: feof_unfolded sys_defs Let_def SEEK_CUR_def SEEK_SET_def min_def
        split: prod.splits if_splits)

text \<open>
  C1 as stated fails on both error branches. On a FIFO holding one last byte the probe
  reads that byte and the seek back fails: \<open>unix_feof\<close> returns false, the position has
  moved from 0 to 1, and the next read transfers nothing. On a regular file with one
  byte whose probe read fails, \<open>unix_feof\<close> returns true, and the next read transfers
  that byte.
\<close>

theorem feof_counterexample:
  "unix_feof (fifo [97] [])
     = Some (False, (fifo [97] [])
               \<lparr>offset := 1, calls := [Sys_read 1 1, Sys_lseek (- 1) SEEK_CUR (- 1)]\<rparr>)
   \<and> offset (fifo [97] []) = 0
   \<and> fst (sys_read ((fifo [97] [])
               \<lparr>offset := 1, calls := [Sys_read 1 1, Sys_lseek (- 1) SEEK_CUR (- 1)]\<rparr>) 1) = 0
   \<and> unix_feof (regular_file [97] 0 [Fault])
     = Some (True, (regular_file [97] 0 [Fault])\<lparr>events := [], calls := [Sys_read 1 (- 1)]\<rparr>)
   \<and> fst (sys_read ((regular_file [97] 0 [Fault])
               \<lparr>events := [], calls := [Sys_read 1 (- 1)]\<rparr>) 1) = 1"
  by code_simp

text \<open>
  C1, amended. \<open>unix_feof\<close> on an open handle always returns. When the descriptor can
  seek and the probe read does not fail, \<open>unix_feof\<close> leaves the file position unchanged
  and returns true exactly when a following read that does not fail transfers zero
  bytes. When the probe read fails with an error, \<open>unix_feof\<close> returns true and the
  position is unchanged. On a descriptor that cannot seek, \<open>unix_feof\<close> returns true
  exactly when no byte is left; otherwise the probed byte is consumed and the position
  has advanced by one.
\<close>

theorem feof_by_branch:
  assumes "is_open f"
  shows "\<exists>r f'. unix_feof f = Some (r, f')
       \<and> (next_event f \<noteq> Fault \<and> seekable f \<longrightarrow>
            offset f' = offset f
            \<and> (\<forall>c>0. next_event f' \<noteq> Fault \<longrightarrow> (r \<longleftrightarrow> fst (sys_read f' c) = 0)))
       \<and> (next_event f = Fault \<longrightarrow> r \<and> offset f' = offset f)
       \<and> (next_event f \<noteq> Fault \<and> \<not> seekable f \<longrightarrow>
            (r \<longleftrightarrow> length (bytes f) \<le> offset f)
            \<and> offset f' = (if r then offset f else offset f + 1))"
proof -
  obtain r f' where rf: "unix_feof f = Some (r, f')"
    using feof_result [OF assms] by (metis surj_pair)
  note res = rf [unfolded feof_result [OF assms]]
  have open': "is_open f'" and bytes': "bytes f' = bytes f"
    using assms res by (auto simp: record_call_def consume_def split: if_splits)
  have a: "next_event f = Fault \<Longrightarrow> r \<and> offset f' = offset f"
    using res by (auto simp: record_call_def consume_def split: if_splits)
  have b: "next_event f \<noteq> Fault \<Longrightarrow> r \<longleftrightarrow> length (bytes f) \<le> offset f"
    using res by (auto simp: record_call_def consume_def split: if_splits)
  have c: "next_event f \<noteq> Fault \<Longrightarrow> seekable f \<Longrightarrow> offset f' = offset f"
    using res by (auto simp: record_call_def consume_def split: if_splits)
  have d: "next_event f \<noteq> Fault \<Longrightarrow> \<not> seekable f \<Longrightarrow>
             offset f' = (if r then offset f else offset f + 1)"
    using res by (auto simp: record_call_def consume_def split: if_splits)
  have "(next_event f \<noteq> Fault \<and> seekable f \<longrightarrow>
            offset f' = offset f
            \<and> (\<forall>c>0. next_event f' \<noteq> Fault \<longrightarrow> (r \<longleftrightarrow> fst (sys_read f' c) = 0)))
       \<and> (next_event f = Fault \<longrightarrow> r \<and> offset f' = offset f)
       \<and> (next_event f \<noteq> Fault \<and> \<not> seekable f \<longrightarrow>
            (r \<longleftrightarrow> length (bytes f) \<le> offset f)
            \<and> offset f' = (if r then offset f else offset f + 1))"
    using a b c d sys_read_nothing_iff [OF open'] bytes' by auto
  with rf show ?thesis by blast
qed

theorem feof_by_branch_witness:
  "unix_feof (regular_file [97, 98] 2 [])
     = Some (True, (regular_file [97, 98] 2 [])\<lparr>calls := [Sys_read 1 0]\<rparr>)
   \<and> fst (sys_read ((regular_file [97, 98] 2 [])\<lparr>calls := [Sys_read 1 0]\<rparr>) 4) = 0
   \<and> unix_feof (regular_file [97, 98] 0 [])
     = Some (False, (regular_file [97, 98] 0 [])
               \<lparr>calls := [Sys_read 1 1, Sys_lseek (- 1) SEEK_CUR 0]\<rparr>)
   \<and> fst (sys_read ((regular_file [97, 98] 0 [])
               \<lparr>calls := [Sys_read 1 1, Sys_lseek (- 1) SEEK_CUR 0]\<rparr>) 4) \<noteq> 0
   \<and> unix_feof (regular_file [97, 98] 0 [Fault])
     = Some (True, (regular_file [97, 98] 0 [Fault])
               \<lparr>events := [], calls := [Sys_read 1 (- 1)]\<rparr>)
   \<and> unix_feof (fifo [97, 98] [])
     = Some (False, (fifo [97, 98] [])
               \<lparr>offset := 1, calls := [Sys_read 1 1, Sys_lseek (- 1) SEEK_CUR (- 1)]\<rparr>)"
proof -
  let ?a = "regular_file [97, 98] 2 []"
  let ?a' = "?a\<lparr>calls := [Sys_read 1 0]\<rparr>"
  let ?b = "regular_file [97, 98] 0 []"
  let ?b' = "?b\<lparr>calls := [Sys_read 1 1, Sys_lseek (- 1) SEEK_CUR 0]\<rparr>"
  let ?c = "regular_file [97, 98] 0 [Fault]"
  let ?d = "fifo [97, 98] []"
  have o: "is_open ?a" "is_open ?b" "is_open ?c" "is_open ?d"
    by (simp_all add: regular_file_def fifo_def)
  have e: "next_event ?a \<noteq> Fault" "next_event ?b \<noteq> Fault" "next_event ?c = Fault"
    "next_event ?d \<noteq> Fault" "seekable ?a" "seekable ?b" "\<not> seekable ?d"
    "next_event ?a' \<noteq> Fault" "next_event ?b' \<noteq> Fault"
    by (simp_all add: regular_file_def fifo_def next_event_def)
  have r: "unix_feof ?a = Some (True, ?a')"
    "unix_feof ?b = Some (False, ?b')"
    "unix_feof ?c = Some (True, ?c\<lparr>events := [], calls := [Sys_read 1 (- 1)]\<rparr>)"
    "unix_feof ?d = Some (False, ?d\<lparr>offset := 1,
         calls := [Sys_read 1 1, Sys_lseek (- 1) SEEK_CUR (- 1)]\<rparr>)"
    by code_simp+
  have "fst (sys_read ?a' 4) = 0"
    using feof_by_branch [OF o(1)] e by (auto simp: r)
  moreover have "fst (sys_read ?b' 4) \<noteq> 0"
    using feof_by_branch [OF o(2)] e by (auto simp: r)
  ultimately show ?thesis
    using r feof_by_branch [OF o(3)] feof_by_branch [OF o(4)] by simp
qed

subsection \<open>The transfers\<close>

lemma sys_read_cases:
  assumes "sys_read f c = (r, d, f')"
  shows "calls f' = calls f @ [Sys_read c r]"
    and "(r = - 1 \<and> d = []) \<or> (0 \<le> r \<and> r \<le> int c \<and> int (length d) = r)"
  using assms allowance_le [of "next_event f" c]
  by (auto simp: sys_read_def Let_def record_call_def consume_def split: if_splits)

lemma sys_write_cases:
  assumes "sys_write f buf = (r, f')"
  shows "calls f' = calls f @ [Sys_write (length buf) r]"
    and "buf \<noteq> [] \<Longrightarrow> r = - 1 \<or> (1 \<le> r \<and> r \<le> int (length buf))"
  using assms allowance_le [of "next_event f" "length buf"]
    allowance_pos [of "length buf" "next_event f"]
  by (auto simp: sys_write_def Let_def record_call_def consume_def split: if_splits)

text \<open>
  What one run of the read loop does: the calls it adds are reads, \<open>tot\<close> grows by the
  bytes they moved, these bytes are appended to the buffer, \<open>tot\<close> never passes the
  goal, and the loop ends with the goal reached or after a read that returned 0 or
  \<open>- 1\<close>.
\<close>

lemma fread_loop_run:
  assumes "fread_loop f goal tot got = (tot', got', f')"
  shows "\<exists>cs. calls f' = calls f @ cs
          \<and> tot' = tot + transferred cs
          \<and> int (length got') = int (length got) + transferred cs
          \<and> tot \<le> tot' \<and> tot' \<le> max tot goal
          \<and> (goal \<le> tot \<longrightarrow> cs = [])
          \<and> (tot' < goal \<longrightarrow>
                cs \<noteq> [] \<and> (last cs = Sys_read (nat (goal - tot')) 0
                          \<or> last cs = Sys_read (nat (goal - tot')) (- 1)))"
  using assms
proof (induction f goal tot got arbitrary: tot' got' f' rule: fread_loop.induct)
  case (1 f goal tot got)
  show ?case
  proof (cases "tot < goal")
    case False
    with "1.prems" show ?thesis
      by (simp add: fread_loop_done transferred_def)
  next
    case True
    obtain r d f1 where rd: "sys_read f (nat (goal - tot)) = (r, d, f1)"
      by (metis prod_cases3)
    note c = sys_read_cases [OF rd]
    show ?thesis
    proof (cases "r = - 1 \<or> r = 0")
      case True
      with \<open>tot < goal\<close> "1.prems" rd c show ?thesis
        by (auto simp: fread_loop_step transferred_def intro!: exI [of _ "[Sys_read (nat (goal - tot)) r]"])
    next
      case False
      then have pos: "0 < r" "r \<le> goal - tot" "int (length d) = r"
        using c(2) True by auto
      have run: "fread_loop f1 goal (tot + r) (got @ d) = (tot', got', f')"
        using "1.prems" True False rd by (simp add: fread_loop_step)
      have n1: "r \<noteq> - 1" and n0: "r \<noteq> 0"
        using False by auto
      from "1.IH" [OF True rd [symmetric] refl n1 n0 run]
      obtain cs where cs: "calls f' = calls f1 @ cs"
          "tot' = tot + r + transferred cs"
          "int (length got') = int (length (got @ d)) + transferred cs"
          "tot + r \<le> tot'" "tot' \<le> max (tot + r) goal"
          "tot' < goal \<longrightarrow>
                cs \<noteq> [] \<and> (last cs = Sys_read (nat (goal - tot')) 0
                          \<or> last cs = Sys_read (nat (goal - tot')) (- 1))"
        by auto
      show ?thesis
        using cs pos c(1) True
        by (intro exI [of _ "Sys_read (nat (goal - tot)) r # cs"])
           (auto simp: transferred_def)
    qed
  qed
qed

lemma fwrite_loop_run:
  assumes "fwrite_loop f ptr goal tot = (tot', f')"
  shows "\<exists>cs. calls f' = calls f @ cs
          \<and> tot' = tot + transferred cs
          \<and> tot \<le> tot' \<and> tot' \<le> max tot goal
          \<and> (goal \<le> tot \<longrightarrow> cs = [])
          \<and> (tot' < goal \<longrightarrow> cs \<noteq> [] \<and> last cs = Sys_write (nat (goal - tot')) (- 1))"
  using assms
proof (induction f ptr goal tot arbitrary: tot' f' rule: fwrite_loop.induct)
  case (1 f ptr goal tot)
  show ?case
  proof (cases "tot < goal")
    case False
    with "1.prems" show ?thesis
      by (simp add: fwrite_loop_done transferred_def)
  next
    case True
    let ?buf = "map (\<lambda>i. ptr (nat (tot + int i))) [0 ..< nat (goal - tot)]"
    obtain r f1 where wr: "sys_write f ?buf = (r, f1)"
      by (metis surj_pair)
    have ne: "?buf \<noteq> []" and len: "length ?buf = nat (goal - tot)"
      using True by auto
    note c = sys_write_cases(1) [OF wr, unfolded len] sys_write_cases(2) [OF wr ne, unfolded len]
    show ?thesis
    proof (cases "r = - 1")
      case True
      with \<open>tot < goal\<close> "1.prems" wr c show ?thesis
        by (auto simp: fwrite_loop_step transferred_def
              intro!: exI [of _ "[Sys_write (nat (goal - tot)) r]"])
    next
      case False
      then have pos: "0 < r" "r \<le> goal - tot"
        using c(2) True by auto
      have run: "fwrite_loop f1 ptr goal (tot + r) = (tot', f')"
        using "1.prems" True False wr by (simp add: fwrite_loop_step)
      from "1.IH" [OF True wr [symmetric] False run]
      obtain cs where cs: "calls f' = calls f1 @ cs"
          "tot' = tot + r + transferred cs"
          "tot + r \<le> tot'" "tot' \<le> max (tot + r) goal"
          "tot' < goal \<longrightarrow> cs \<noteq> [] \<and> last cs = Sys_write (nat (goal - tot')) (- 1)"
        by auto
      show ?thesis
        using cs pos c(1) True
        by (intro exI [of _ "Sys_write (nat (goal - tot)) r # cs"])
           (auto simp: transferred_def)
    qed
  qed
qed

subsection \<open>The byte goal as a \<open>gint\<close>\<close>

lemma to_gint_eq: "to_gint w = signed_take_bit 31 (uint w)"
  unfolding to_gint_def ucast_eq sint_sbintrunc' by simp

lemma to_gint_small:
  assumes "unat sz * unat n < 2 ^ 31"
  shows "to_gint (sz * n) = int (unat sz * unat n)"
proof -
  have "int (unat sz * unat n) < 2 ^ 31"
    using assms by (simp only: of_nat_less_numeral_power_cancel_iff)
  then have lt: "uint sz * uint n < 2 ^ 31"
    by (simp only: uint_nat of_nat_mult)
  then have "uint sz * uint n < 2 ^ LENGTH(64)"
    by simp
  then have prod: "uint (sz * n) = uint sz * uint n"
    by (rule uint_mult_lem [THEN iffD1])
  have nn: "- (2 ^ 31) \<le> uint sz * uint n"
    by (rule order_trans [of _ 0]) simp_all
  have stb: "signed_take_bit 31 (uint sz * uint n) = uint sz * uint n"
    by (rule signed_take_bit_int_eq_self [OF nn lt])
  have "to_gint (sz * n) = uint sz * uint n"
    by (simp only: to_gint_eq prod stb)
  also have "\<dots> = int (unat sz * unat n)"
    by (simp only: uint_nat of_nat_mult)
  finally show ?thesis .
qed

lemma to_gint_le_product: "to_gint (sz * n) \<le> uint sz * uint n"
proof -
  have "to_gint (sz * n) \<le> uint (sz * n)"
    unfolding to_gint_eq
    by (rule signed_take_bit_int_less_eq_self_iff [THEN iffD2])
       (rule order_trans [of _ 0], simp_all)
  also have "\<dots> \<le> uint sz * uint n"
    by (simp add: uint_word_ariths zmod_le_nonneg_dividend)
  finally show ?thesis .
qed

lemma to_gint_less: "to_gint w < 2 ^ 31"
  unfolding to_gint_eq by (rule signed_take_bit_int_less_exp)

text \<open>The value that \<open>total / size\<close> returns, for a \<open>total\<close> between 0 and the goal.\<close>

lemma whole_elements:
  assumes "0 \<le> tot" and "tot \<le> max 0 (to_gint (sz * n))" and "0 < sz"
  shows "uint (word_of_int tot div sz :: size_t) = tot div uint sz"
    and "(word_of_int tot div sz :: size_t) \<le> n"
proof -
  have lt: "tot < 2 ^ 64"
    using assms(1,2) to_gint_less [of "sz * n"] by (auto simp: max_def split: if_splits)
  have u: "uint (word_of_int tot :: size_t) = tot"
    using assms(1) lt by (simp add: uint_word_of_int)
  show d: "uint (word_of_int tot div sz :: size_t) = tot div uint sz"
    by (simp add: uint_div u)
  have pos: "0 < uint sz"
    using assms(3) by (simp add: word_less_def)
  have "tot \<le> uint sz * uint n"
    using assms(1,2) to_gint_le_product [of sz n] by (auto simp: max_def split: if_splits)
  then have "tot div uint sz \<le> (uint sz * uint n) div uint sz"
    by (rule zdiv_mono1) (rule pos)
  then have "tot div uint sz \<le> uint n"
    using pos by simp
  then show "(word_of_int tot div sz :: size_t) \<le> n"
    by (simp add: word_le_def d)
qed

subsection \<open>What the transfers return\<close>

lemma fread_run:
  assumes "unix_fread sz n f = Some (r, got, f')"
  obtains tot where "fread_loop f (to_gint (sz * n)) 0 [] = (tot, got, f')"
    and "tot = transferred (new_calls f f')" and "int (length got) = tot"
    and "0 \<le> tot" and "tot \<le> max 0 (to_gint (sz * n))"
    and "r = (if sz > 0 then word_of_int tot div sz else 0)"
    and "tot < to_gint (sz * n) \<longrightarrow>
           new_calls f f' \<noteq> []
           \<and> (\<exists>c. last (new_calls f f') = Sys_read c 0 \<or> last (new_calls f f') = Sys_read c (- 1))"
proof -
  obtain tot where run: "fread_loop f (to_gint (sz * n)) 0 [] = (tot, got, f')"
    and r: "r = (if sz > 0 then word_of_int tot div sz else 0)"
    using assms
    by (auto simp: unix_fread_def Let_def udiv_def split: prod.splits option.splits if_splits)
  from fread_loop_run [OF run] obtain cs where cs: "calls f' = calls f @ cs"
    "tot = 0 + transferred cs" "int (length got) = int (length ([] :: byte list)) + transferred cs"
    "0 \<le> tot" "tot \<le> max 0 (to_gint (sz * n))"
    "tot < to_gint (sz * n) \<longrightarrow>
       cs \<noteq> [] \<and> (last cs = Sys_read (nat (to_gint (sz * n) - tot)) 0
                 \<or> last cs = Sys_read (nat (to_gint (sz * n) - tot)) (- 1))"
    by blast
  have nc: "new_calls f f' = cs"
    by (simp add: new_calls_def cs(1))
  show thesis
    using cs(2-6) by (intro that [OF run _ _ _ _ r]) (auto simp: nc)
qed

lemma fwrite_run:
  assumes "unix_fwrite ptr sz n f = Some (r, f')"
  obtains tot where "fwrite_loop f ptr (to_gint (sz * n)) 0 = (tot, f')"
    and "tot = transferred (new_calls f f')"
    and "0 \<le> tot" and "tot \<le> max 0 (to_gint (sz * n))"
    and "r = (if sz > 0 then word_of_int tot div sz else 0)"
    and "tot < to_gint (sz * n) \<longrightarrow>
           new_calls f f' \<noteq> [] \<and> (\<exists>c. last (new_calls f f') = Sys_write c (- 1))"
proof -
  obtain tot where run: "fwrite_loop f ptr (to_gint (sz * n)) 0 = (tot, f')"
    and r: "r = (if sz > 0 then word_of_int tot div sz else 0)"
    using assms
    by (auto simp: unix_fwrite_def Let_def udiv_def split: prod.splits option.splits if_splits)
  from fwrite_loop_run [OF run] obtain cs where cs: "calls f' = calls f @ cs"
    "tot = 0 + transferred cs"
    "0 \<le> tot" "tot \<le> max 0 (to_gint (sz * n))"
    "tot < to_gint (sz * n) \<longrightarrow>
       cs \<noteq> [] \<and> last cs = Sys_write (nat (to_gint (sz * n) - tot)) (- 1)"
    by blast
  have nc: "new_calls f f' = cs"
    by (simp add: new_calls_def cs(1))
  show thesis
    using cs(2-5) by (intro that [OF run _ _ _ r]) (auto simp: nc)
qed

text \<open>
  Whatever the size and the count, the value returned by \<open>unix_fread\<close> and by
  \<open>unix_fwrite\<close> is the number of bytes the call has moved divided by the element size,
  rounded down (0 for the size 0), and it is at most the requested count. The bytes
  that \<open>unix_fread\<close> has stored are the bytes it has moved.
\<close>

theorem transfer_returns_whole_elements:
  "(unix_fread sz n f = Some (r, got, f') \<longrightarrow>
      uint r = (if sz = 0 then 0 else transferred (new_calls f f') div uint sz)
      \<and> r \<le> n \<and> int (length got) = transferred (new_calls f f'))
   \<and> (unix_fwrite ptr sz n f = Some (r, f') \<longrightarrow>
      uint r = (if sz = 0 then 0 else transferred (new_calls f f') div uint sz)
      \<and> r \<le> n)"
proof (intro conjI impI)
  assume a: "unix_fread sz n f = Some (r, got, f')"
  from a obtain tot where t: "tot = transferred (new_calls f f')" "int (length got) = tot"
    "0 \<le> tot" "tot \<le> max 0 (to_gint (sz * n))"
    "r = (if sz > 0 then word_of_int tot div sz else 0)"
    by (rule fread_run)
  show "uint r = (if sz = 0 then 0 else transferred (new_calls f f') div uint sz)"
    using t whole_elements(1) [OF t(3,4)] by (auto simp: word_greater_zero_iff)
  show "r \<le> n"
    using t whole_elements(2) [OF t(3,4)] by (auto simp: word_greater_zero_iff)
  show "int (length got) = transferred (new_calls f f')"
    using t by simp
next
  assume a: "unix_fwrite ptr sz n f = Some (r, f')"
  from a obtain tot where t: "tot = transferred (new_calls f f')"
    "0 \<le> tot" "tot \<le> max 0 (to_gint (sz * n))"
    "r = (if sz > 0 then word_of_int tot div sz else 0)"
    by (rule fwrite_run)
  show "uint r = (if sz = 0 then 0 else transferred (new_calls f f') div uint sz)"
    using t whole_elements(1) [OF t(2,3)] by (auto simp: word_greater_zero_iff)
  show "r \<le> n"
    using t whole_elements(2) [OF t(2,3)] by (auto simp: word_greater_zero_iff)
qed

theorem transfer_returns_whole_elements_witness:
  "unix_fread 2 3 (regular_file [1, 2, 3, 4] 0 [Short 2])
     = Some (2, [1, 2, 3, 4],
        (regular_file [1, 2, 3, 4] 0 [Short 2])
          \<lparr>offset := 4, events := [],
           calls := [Sys_read 6 3, Sys_read 3 1, Sys_read 2 0]\<rparr>)
   \<and> transferred [Sys_read 6 3, Sys_read 3 1, Sys_read 2 0] = 4
   \<and> (2 :: size_t) \<le> 3
   \<and> unix_fwrite (\<lambda>i. 7) 2 3 (regular_file [1, 2, 3] 0 [Short 2, Fault])
     = Some (1, (regular_file [1, 2, 3] 0 [Short 2, Fault])
          \<lparr>bytes := [7, 7, 7], offset := 3, events := [],
           calls := [Sys_write 6 3, Sys_write 3 (- 1)]\<rparr>)
   \<and> transferred [Sys_write 6 3, Sys_write 3 (- 1)] div 2 = 1"
proof -
  let ?f = "regular_file [1, 2, 3, 4] 0 [Short 2]"
  let ?f' = "?f\<lparr>offset := 4, events := [],
                 calls := [Sys_read 6 3, Sys_read 3 1, Sys_read 2 0]\<rparr>"
  let ?g = "regular_file [1, 2, 3] 0 [Short 2, Fault]"
  let ?g' = "?g\<lparr>bytes := [7, 7, 7], offset := 3, events := [],
                 calls := [Sys_write 6 3, Sys_write 3 (- 1)]\<rparr>"
  have rd: "unix_fread 2 3 ?f = Some (2, [1, 2, 3, 4], ?f')"
    by code_simp
  have nc: "new_calls ?f ?f' = [Sys_read 6 3, Sys_read 3 1, Sys_read 2 0]"
    "new_calls ?g ?g' = [Sys_write 6 3, Sys_write 3 (- 1)]"
    by (simp_all add: new_calls_def regular_file_def)
  have wr: "unix_fwrite (\<lambda>i. 7) 2 3 ?g = Some (1, ?g')"
    by code_simp
  have "transferred [Sys_read 6 3, Sys_read 3 1, Sys_read 2 0] = 4 \<and> (2 :: size_t) \<le> 3"
    using transfer_returns_whole_elements [of 2 3 ?f 2 "[1, 2, 3, 4]" ?f' "\<lambda>i. 7"] rd
    by (simp add: nc)
  moreover have "transferred [Sys_write 6 3, Sys_write 3 (- 1)] div 2 = 1"
    using transfer_returns_whole_elements [of 2 3 ?g 1 "[]" ?g' "\<lambda>i. 7"] wr
    by (simp add: nc)
  ultimately show ?thesis
    using rd wr by simp
qed

text \<open>
  When the byte total \<open>size * nitems\<close> is below \<open>2 ^ 31\<close>, so that it fits the \<open>gint\<close>,
  the loop of \<open>unix_fread\<close> ends only with that total moved or after a \<open>read\<close> that
  returned 0 or \<open>- 1\<close>, and the loop of \<open>unix_fwrite\<close> only with that total moved or
  after a \<open>write\<close> that returned \<open>- 1\<close>.
\<close>

theorem transfer_stops_when:
  assumes "unat sz * unat n < 2 ^ 31"
  shows "(unix_fread sz n f = Some (r, got, f') \<longrightarrow>
           transferred (new_calls f f') = int (unat sz * unat n)
           \<or> (new_calls f f' \<noteq> []
              \<and> (\<exists>c. last (new_calls f f') = Sys_read c 0
                     \<or> last (new_calls f f') = Sys_read c (- 1))))
       \<and> (unix_fwrite ptr sz n f = Some (r, f') \<longrightarrow>
           transferred (new_calls f f') = int (unat sz * unat n)
           \<or> (new_calls f f' \<noteq> [] \<and> (\<exists>c. last (new_calls f f') = Sys_write c (- 1))))"
proof (intro conjI impI)
  note g = to_gint_small [OF assms]
  assume a: "unix_fread sz n f = Some (r, got, f')"
  from a obtain tot where t: "tot = transferred (new_calls f f')"
    "0 \<le> tot" "tot \<le> max 0 (to_gint (sz * n))"
    "tot < to_gint (sz * n) \<longrightarrow>
           new_calls f f' \<noteq> []
           \<and> (\<exists>c. last (new_calls f f') = Sys_read c 0 \<or> last (new_calls f f') = Sys_read c (- 1))"
    by (rule fread_run)
  show "transferred (new_calls f f') = int (unat sz * unat n)
           \<or> (new_calls f f' \<noteq> []
              \<and> (\<exists>c. last (new_calls f f') = Sys_read c 0
                     \<or> last (new_calls f f') = Sys_read c (- 1)))"
  proof (cases "tot < to_gint (sz * n)")
    case True
    then show ?thesis using t(4) by blast
  next
    case False
    then have "tot = int (unat sz * unat n)"
      using t(2,3) g by (simp add: max_def split: if_splits)
    then show ?thesis using t(1) by simp
  qed
next
  note g = to_gint_small [OF assms]
  assume a: "unix_fwrite ptr sz n f = Some (r, f')"
  from a obtain tot where t: "tot = transferred (new_calls f f')"
    "0 \<le> tot" "tot \<le> max 0 (to_gint (sz * n))"
    "tot < to_gint (sz * n) \<longrightarrow>
           new_calls f f' \<noteq> [] \<and> (\<exists>c. last (new_calls f f') = Sys_write c (- 1))"
    by (rule fwrite_run)
  show "transferred (new_calls f f') = int (unat sz * unat n)
           \<or> (new_calls f f' \<noteq> [] \<and> (\<exists>c. last (new_calls f f') = Sys_write c (- 1)))"
  proof (cases "tot < to_gint (sz * n)")
    case True
    then show ?thesis using t(4) by blast
  next
    case False
    then have "tot = int (unat sz * unat n)"
      using t(2,3) g by (simp add: max_def split: if_splits)
    then show ?thesis using t(1) by simp
  qed
qed

theorem transfer_stops_when_witness:
  "unat (2 :: size_t) * unat (3 :: size_t) < 2 ^ 31
   \<and> unix_fread 2 3 (regular_file [1, 2, 3, 4, 5, 6, 7] 0 [Short 2])
     = Some (3, [1, 2, 3, 4, 5, 6],
        (regular_file [1, 2, 3, 4, 5, 6, 7] 0 [Short 2])
          \<lparr>offset := 6, events := [], calls := [Sys_read 6 3, Sys_read 3 3]\<rparr>)
   \<and> transferred [Sys_read 6 3, Sys_read 3 3] = 6"
proof -
  let ?e = "regular_file [1, 2, 3, 4, 5, 6, 7] 0 [Short 2]"
  let ?e' = "?e\<lparr>offset := 6, events := [], calls := [Sys_read 6 3, Sys_read 3 3]\<rparr>"
  have small: "unat (2 :: size_t) * unat (3 :: size_t) < 2 ^ 31"
    by simp
  have rd: "unix_fread 2 3 ?e = Some (3, [1, 2, 3, 4, 5, 6], ?e')"
    by code_simp
  have nc: "new_calls ?e ?e' = [Sys_read 6 3, Sys_read 3 3]"
    by (simp add: new_calls_def regular_file_def)
  have "transferred [Sys_read 6 3, Sys_read 3 3] = 6"
    using transfer_stops_when [of 2 3 ?e 3 "[1, 2, 3, 4, 5, 6]" ?e' "\<lambda>i. 7", OF small] rd
    by (simp add: nc)
  then show ?thesis
    using small rd by simp
qed

text \<open>
  C2 on the code. The byte goal is \<open>size * nitems\<close> stored in a \<open>gint\<close>. For one-byte
  elements and \<open>2 ^ 31\<close> of them the goal is \<open>- (2 ^ 31)\<close>: on a file that holds three
  bytes, \<open>unix_fread\<close> and \<open>unix_fwrite\<close> return 0 without a single \<open>read\<close> or
  \<open>write\<close>, so the loop has ended although the requested byte total is not reached,
  no transfer of zero bytes has occurred and no call has failed. With a count of 3 the
  same file gives its three bytes.
\<close>

theorem transfer_goal_truncated:
  "to_gint (1 * 2 ^ 31) = - (2 ^ 31)
   \<and> unix_fread 1 (2 ^ 31) (regular_file [1, 2, 3] 0 [])
        = Some (0, [], regular_file [1, 2, 3] 0 [])
   \<and> unix_fwrite (\<lambda>i. 7) 1 (2 ^ 31) (regular_file [1, 2, 3] 0 [])
        = Some (0, regular_file [1, 2, 3] 0 [])
   \<and> unix_fread 1 3 (regular_file [1, 2, 3] 0 [])
        = Some (3, [1, 2, 3],
            (regular_file [1, 2, 3] 0 [])\<lparr>offset := 3, calls := [Sys_read 3 3]\<rparr>)"
  by code_simp

subsection \<open>Opening\<close>

lemmas open_flag_defs =
  O_RDONLY_def O_WRONLY_def O_RDWR_def O_CREAT_def O_TRUNC_def O_APPEND_def

lemma fopen_accepted:
  assumes "g uri = Some fn" and "mode_flag_of mode = Some fl"
  shows "unix_fopen g sys_open uri mode
           = opened_with sys_open fn fl (if fl AND O_CREAT \<noteq> 0 then rw_r_r else None)"
  using assms by (simp add: unix_fopen_def opened_with_def rw_r_r_def Let_def)

lemma mode_flags:
  "mode_flag_of ''r'' = Some O_RDONLY"
  "mode_flag_of ''r+'' = Some O_RDWR"
  "mode_flag_of ''w'' = Some (O_WRONLY OR O_CREAT OR O_TRUNC)"
  "mode_flag_of ''w+'' = Some (O_RDWR OR O_CREAT OR O_TRUNC)"
  "mode_flag_of ''a'' = Some (O_WRONLY OR O_CREAT OR O_APPEND)"
  "mode_flag_of ''a+'' = Some (O_RDWR OR O_CREAT OR O_APPEND)"
  by (simp_all add: mode_flag_of_def)

lemma creat_bits:
  "O_RDONLY AND O_CREAT = 0" "O_RDWR AND O_CREAT = 0"
  "(O_WRONLY OR O_CREAT OR O_TRUNC) AND O_CREAT \<noteq> 0"
  "(O_RDWR OR O_CREAT OR O_TRUNC) AND O_CREAT \<noteq> 0"
  "(O_WRONLY OR O_CREAT OR O_APPEND) AND O_CREAT \<noteq> 0"
  "(O_RDWR OR O_CREAT OR O_APPEND) AND O_CREAT \<noteq> 0"
  by (simp_all add: open_flag_defs)

lemma mode_flag_of_None_iff:
  "mode_flag_of mode = None \<longleftrightarrow>
     mode = [] \<or> hd mode \<notin> {CHR ''r'', CHR ''w'', CHR ''a''}"
  by (cases mode) (auto simp: mode_flag_of_def Let_def)

text \<open>
  C3. For the six mode strings \<open>unix_fopen\<close> passes \<open>open\<close> exactly the documented
  flags: read-only for \<open>r\<close>, read-write for \<open>r+\<close>, write-only with create and truncate
  for \<open>w\<close>, read-write with create and truncate for \<open>w+\<close>, write-only with create and
  append for \<open>a\<close>, read-write with create and append for \<open>a+\<close> (with the permissions
  \<open>rw-r--r--\<close> whenever it creates). It returns \<open>NULL\<close> for a mode string whose first
  character is none of \<open>r\<close>, \<open>w\<close>, \<open>a\<close> and for a URI that \<open>g_filename_from_uri\<close>
  rejects, both without calling \<open>open\<close>, and for every other mode and URI exactly when
  the one \<open>open\<close> call it makes returns \<open>- 1\<close>.
\<close>

theorem fopen_flags_and_failures:
  "(g uri = Some fn \<longrightarrow>
        unix_fopen g sys_open uri ''r'' = opened_with sys_open fn O_RDONLY None
      \<and> unix_fopen g sys_open uri ''r+'' = opened_with sys_open fn O_RDWR None
      \<and> unix_fopen g sys_open uri ''w''
          = opened_with sys_open fn (O_WRONLY OR O_CREAT OR O_TRUNC) rw_r_r
      \<and> unix_fopen g sys_open uri ''w+''
          = opened_with sys_open fn (O_RDWR OR O_CREAT OR O_TRUNC) rw_r_r
      \<and> unix_fopen g sys_open uri ''a''
          = opened_with sys_open fn (O_WRONLY OR O_CREAT OR O_APPEND) rw_r_r
      \<and> unix_fopen g sys_open uri ''a+''
          = opened_with sys_open fn (O_RDWR OR O_CREAT OR O_APPEND) rw_r_r)
   \<and> (mode = [] \<or> hd mode \<notin> {CHR ''r'', CHR ''w'', CHR ''a''} \<longrightarrow>
        unix_fopen g sys_open uri mode = (None, []))
   \<and> (g uri = None \<longrightarrow> unix_fopen g sys_open uri mode = (None, []))
   \<and> (g uri = Some fn \<and> mode_flag_of mode = Some fl \<longrightarrow>
        unix_fopen g sys_open uri mode
          = opened_with sys_open fn fl (if fl AND O_CREAT \<noteq> 0 then rw_r_r else None)
        \<and> (fst (unix_fopen g sys_open uri mode) = None
             \<longleftrightarrow> sys_open fn fl (if fl AND O_CREAT \<noteq> 0 then rw_r_r else None) = - 1))"
proof -
  have six: "g uri = Some fn \<Longrightarrow>
        unix_fopen g sys_open uri ''r'' = opened_with sys_open fn O_RDONLY None
      \<and> unix_fopen g sys_open uri ''r+'' = opened_with sys_open fn O_RDWR None
      \<and> unix_fopen g sys_open uri ''w''
          = opened_with sys_open fn (O_WRONLY OR O_CREAT OR O_TRUNC) rw_r_r
      \<and> unix_fopen g sys_open uri ''w+''
          = opened_with sys_open fn (O_RDWR OR O_CREAT OR O_TRUNC) rw_r_r
      \<and> unix_fopen g sys_open uri ''a''
          = opened_with sys_open fn (O_WRONLY OR O_CREAT OR O_APPEND) rw_r_r
      \<and> unix_fopen g sys_open uri ''a+''
          = opened_with sys_open fn (O_RDWR OR O_CREAT OR O_APPEND) rw_r_r"
    by (simp add: fopen_accepted mode_flags creat_bits)
  have bad: "mode = [] \<or> hd mode \<notin> {CHR ''r'', CHR ''w'', CHR ''a''} \<Longrightarrow>
        unix_fopen g sys_open uri mode = (None, [])"
    using mode_flag_of_None_iff [of mode] by (simp add: unix_fopen_def)
  have nouri: "g uri = None \<Longrightarrow> unix_fopen g sys_open uri mode = (None, [])"
    by (simp add: unix_fopen_def split: option.splits)
  have fail: "g uri = Some fn \<and> mode_flag_of mode = Some fl \<Longrightarrow>
        unix_fopen g sys_open uri mode
          = opened_with sys_open fn fl (if fl AND O_CREAT \<noteq> 0 then rw_r_r else None)
        \<and> (fst (unix_fopen g sys_open uri mode) = None
             \<longleftrightarrow> sys_open fn fl (if fl AND O_CREAT \<noteq> 0 then rw_r_r else None) = - 1)"
    by (auto simp: fopen_accepted opened_with_def)
  show ?thesis using six bad nouri fail by blast
qed

theorem fopen_flags_and_failures_witness:
  "unix_fopen file_uri open_tmp_a ''file:///tmp/a'' ''w+''
     = (Some \<lparr>handle = 3\<rparr>, [Call_open ''/tmp/a'' 578 (Some 420), Call_fcntl_cloexec 3])
   \<and> unix_fopen file_uri open_tmp_a ''file:///tmp/a'' ''r''
     = (Some \<lparr>handle = 3\<rparr>, [Call_open ''/tmp/a'' 0 None, Call_fcntl_cloexec 3])
   \<and> unix_fopen file_uri open_tmp_a ''file:///tmp/a'' ''x'' = (None, [])
   \<and> unix_fopen file_uri open_tmp_a ''/tmp/a'' ''r'' = (None, [])
   \<and> unix_fopen file_uri open_tmp_a ''file:///tmp/b'' ''ab''
     = (None, [Call_open ''/tmp/b'' 1089 (Some 420)])"
proof -
  have u: "file_uri ''file:///tmp/a'' = Some ''/tmp/a''" "file_uri ''/tmp/a'' = None"
    "file_uri ''file:///tmp/b'' = Some ''/tmp/b''"
    by (simp_all add: file_uri_def)
  have m: "hd ''x'' \<notin> {CHR ''r'', CHR ''w'', CHR ''a''}"
    "mode_flag_of ''ab'' = Some 1089"
    by (simp_all add: mode_flag_of_def open_flag_defs)
  have v: "O_RDWR OR O_CREAT OR O_TRUNC = 578" "O_RDONLY = 0" "rw_r_r = Some 420"
    "(1089 :: 32 word) AND O_CREAT \<noteq> 0"
    by (simp_all add: open_flag_defs rw_r_r_def S_IRUSR_def S_IWUSR_def S_IRGRP_def S_IROTH_def)
  show ?thesis
    using u m v
      fopen_flags_and_failures [where g = file_uri and sys_open = open_tmp_a
        and uri = "''file:///tmp/a''" and fn = "''/tmp/a''" and mode = "''x''"]
      fopen_flags_and_failures [where g = file_uri and sys_open = open_tmp_a
        and uri = "''/tmp/a''" and mode = "''r''"]
      fopen_flags_and_failures [where g = file_uri and sys_open = open_tmp_a
        and uri = "''file:///tmp/b''" and fn = "''/tmp/b''" and mode = "''ab''" and fl = 1089]
    by (simp add: opened_with_def open_tmp_a_def)
qed

section \<open>Properties of the playlist view helpers\<close>

subsection \<open>Selecting and counting a range\<close>

lemmas aud_defs =
  aud_playlist_entry_count_def aud_playlist_entry_get_selected_def
  aud_playlist_entry_set_selected_def aud_playlist_select_all_def

lemma select_range_loop_flags:
  "selected_flags (select_range_loop h list top_row len count) list' =
     (if list' = list
      then map (\<lambda>i. selected_flags h list ! i
                    \<or> (top_row + count \<le> int i \<and> int i < top_row + len))
             [0 ..< length (selected_flags h list)]
      else selected_flags h list')"
proof (induction h list top_row len count rule: select_range_loop.induct)
  case (1 h list top_row len count)
  show ?case
  proof (cases "count < len")
    case False
    then show ?thesis
      by (subst select_range_loop.simps) (auto simp: map_nth intro!: nth_equalityI)
  next
    case True
    have step: "select_range_loop h list top_row len count =
        select_range_loop (aud_playlist_entry_set_selected h list (top_row + count) True)
          list top_row len (count + 1)"
      using True by (subst select_range_loop.simps) simp
    show ?thesis
      using True
      by (subst step, subst 1 [OF True])
         (auto simp: aud_defs nth_list_update intro!: nth_equalityI split: if_splits)
  qed
qed

lemma select_range_selected:
  assumes "0 \<le> top_row" and "top_row + len \<le> aud_playlist_entry_count h list"
  shows "aud_playlist_entry_get_selected (playlist_select_range h list top_row len) list i
           \<longleftrightarrow> top_row \<le> i \<and> i < top_row + len"
  using assms
  by (auto simp: playlist_select_range_def select_range_loop_flags
        aud_playlist_entry_get_selected_def aud_playlist_entry_count_def
        aud_playlist_select_all_def)

lemma count_selected_loop_all:
  "(\<And>i. count \<le> i \<Longrightarrow> i < len \<Longrightarrow> aud_playlist_entry_get_selected h list (top_row + i))
     \<Longrightarrow> count_selected_loop h list top_row len count selected
           = selected + max 0 (len - count)"
proof (induction h list top_row len count selected rule: count_selected_loop.induct)
  case (1 h list top_row len count selected)
  show ?case
  proof (cases "count < len")
    case False
    then show ?thesis by (subst count_selected_loop.simps) simp
  next
    case True
    have sel: "aud_playlist_entry_get_selected h list (top_row + count)"
      using True by (simp add: "1.prems")
    have "count_selected_loop h list top_row len count selected
            = count_selected_loop h list top_row len (count + 1) (selected + 1)"
      using True sel by (subst count_selected_loop.simps) simp
    also have "\<dots> = selected + 1 + max 0 (len - (count + 1))"
      using "1.IH" [OF True] sel by (simp add: "1.prems")
    finally show ?thesis using True by simp
  qed
qed

lemma count_selected_loop_none:
  "(\<And>i. count \<le> i \<Longrightarrow> i < len \<Longrightarrow> \<not> aud_playlist_entry_get_selected h list (top_row + i))
     \<Longrightarrow> count_selected_loop h list top_row len count selected = selected"
proof (induction h list top_row len count selected rule: count_selected_loop.induct)
  case (1 h list top_row len count selected)
  show ?case
  proof (cases "count < len")
    case False
    then show ?thesis by (subst count_selected_loop.simps) simp
  next
    case True
    have sel: "\<not> aud_playlist_entry_get_selected h list (top_row + count)"
      using True by (simp add: "1.prems")
    have "count_selected_loop h list top_row len count selected
            = count_selected_loop h list top_row len (count + 1) selected"
      using True sel by (subst count_selected_loop.simps) simp
    also have "\<dots> = selected"
      using "1.IH" [OF True] sel by (simp add: "1.prems")
    finally show ?thesis .
  qed
qed

text \<open>
  C8. When the rows \<open>top .. top + length - 1\<close> exist (\<open>top\<close> and \<open>length\<close> not
  negative), after \<open>playlist_select_range\<close> an entry of the playlist is selected
  exactly when it lies in the range; counting the selected entries of the same range
  gives \<open>length\<close>, and counting those of any range that shares no row with it gives 0.
\<close>

theorem select_range_then_count:
  assumes "0 \<le> top_row" and "0 \<le> len"
    and "top_row + len \<le> aud_playlist_entry_count h list"
  shows "(\<forall>i. aud_playlist_entry_get_selected (playlist_select_range h list top_row len) list i
              \<longleftrightarrow> top_row \<le> i \<and> i < top_row + len)
    \<and> playlist_count_selected_in_range (playlist_select_range h list top_row len)
          list top_row len = len
    \<and> (\<forall>top' len'.
          (\<forall>i. top' \<le> i \<and> i < top' + len' \<longrightarrow> \<not> (top_row \<le> i \<and> i < top_row + len)) \<longrightarrow>
          playlist_count_selected_in_range (playlist_select_range h list top_row len)
            list top' len' = 0)"
proof -
  let ?h = "playlist_select_range h list top_row len"
  have sel: "\<And>i. aud_playlist_entry_get_selected ?h list i
               \<longleftrightarrow> top_row \<le> i \<and> i < top_row + len"
    using assms(1,3) by (rule select_range_selected)
  have same: "playlist_count_selected_in_range ?h list top_row len = len"
    unfolding playlist_count_selected_in_range_def
    using assms(2) by (subst count_selected_loop_all) (simp_all add: sel)
  have other: "playlist_count_selected_in_range ?h list top' len' = 0"
    if "\<forall>i. top' \<le> i \<and> i < top' + len' \<longrightarrow> \<not> (top_row \<le> i \<and> i < top_row + len)"
    for top' len'
    unfolding playlist_count_selected_in_range_def
    using that by (subst count_selected_loop_none) (simp_all add: sel)
  show ?thesis using sel same other by blast
qed

theorem select_range_then_count_witness:
  "selected_flags (playlist_select_range five_entries 0 1 3) 0
     = [False, True, True, True, False]
   \<and> playlist_count_selected_in_range (playlist_select_range five_entries 0 1 3) 0 1 3 = 3
   \<and> playlist_count_selected_in_range (playlist_select_range five_entries 0 1 3) 0 4 1 = 0
   \<and> playlist_count_selected_in_range (playlist_select_range five_entries 0 1 3) 0 0 1 = 0
   \<and> aud_playlist_entry_get_selected (playlist_select_range five_entries 0 1 3) 0 2
   \<and> \<not> aud_playlist_entry_get_selected (playlist_select_range five_entries 0 1 3) 0 4"
proof -
  have a: "(0::int) \<le> 1" "(0::int) \<le> 3" "1 + 3 \<le> aud_playlist_entry_count five_entries 0"
    by (simp_all add: aud_playlist_entry_count_def five_entries_def)
  have f: "selected_flags (playlist_select_range five_entries 0 1 3) 0
     = [False, True, True, True, False]"
    by code_simp
  show ?thesis
    using f select_range_then_count [OF a] by auto
qed

subsection \<open>Refreshing the selection\<close>

lemmas gtk_defs =
  gtk_tree_selection_select_iter_def gtk_tree_selection_unselect_iter_def set_row_def
  gui_call_def gtk_tree_model_iter_next_def gtk_tree_model_get_iter_first_def

lemma select_or_unselect_row:
  assumes "i < length (row_selected t)"
  shows "row_selected (if v then gtk_tree_selection_select_iter t (Some i)
                       else gtk_tree_selection_unselect_iter t (Some i))
           = (row_selected t)[i := v]"
    and "model (if v then gtk_tree_selection_select_iter t (Some i)
                else gtk_tree_selection_unselect_iter t (Some i)) = model t"
    and "cursor (if v then gtk_tree_selection_select_iter t (Some i)
                 else gtk_tree_selection_unselect_iter t (Some i)) = cursor t"
  using assms by (auto simp: gtk_defs)

lemma refresh_selection_loop_rows:
  assumes "int (length (row_selected t)) = entries" and "0 \<le> count" and "count \<le> entries"
    and "iter = (if count < entries then Some (nat count) else None)"
  shows "row_selected (refresh_selection_loop h entries count iter t) =
           take (nat count) (row_selected t)
           @ map (\<lambda>i. aud_playlist_entry_get_selected h (playlist (model t)) (int i))
               [nat count ..< length (row_selected t)]"
  using assms
proof (induction h entries count iter t rule: refresh_selection_loop.induct)
  case (1 h entries count iter t)
  show ?case
  proof (cases "count < entries")
    case False
    with "1.prems" show ?thesis
      by (subst refresh_selection_loop.simps) simp
  next
    case True
    let ?v = "aud_playlist_entry_get_selected h (playlist (model t)) count"
    define t' where "t' = (if ?v then gtk_tree_selection_select_iter t iter
                           else gtk_tree_selection_unselect_iter t iter)"
    have it: "iter = Some (nat count)" and lt: "nat count < length (row_selected t)"
      using True "1.prems" by auto
    have rows': "row_selected t' = (row_selected t)[nat count := ?v]"
      and model': "model t' = model t"
      unfolding t'_def it using select_or_unselect_row [OF lt] by auto
    have len': "length (row_selected t') = length (row_selected t)"
      by (simp add: rows')
    have next': "gtk_tree_model_iter_next t' iter
                   = (if count + 1 < entries then Some (nat (count + 1)) else None)"
      using "1.prems" True
      by (auto simp: gtk_tree_model_iter_next_def it len' nat_add_distrib)
    have step: "refresh_selection_loop h entries count iter t
                  = refresh_selection_loop h entries (count + 1)
                      (gtk_tree_model_iter_next t' iter) t'"
      using True by (subst refresh_selection_loop.simps) (simp add: Let_def t'_def)
    have ih: "row_selected (refresh_selection_loop h entries (count + 1)
                      (gtk_tree_model_iter_next t' iter) t') =
           take (nat (count + 1)) (row_selected t')
           @ map (\<lambda>i. aud_playlist_entry_get_selected h (playlist (model t')) (int i))
               [nat (count + 1) ..< length (row_selected t')]"
      using "1.prems" True
      by (intro "1.IH" [OF True t'_def]) (simp_all add: len' next' [unfolded it])
    have cnt: "nat (count + 1) = Suc (nat count)"
      using "1.prems" by simp
    have A: "take (Suc (nat count)) ((row_selected t)[nat count := ?v])
            = take (nat count) (row_selected t) @ [?v]"
      using lt by (simp add: take_Suc_conv_app_nth)
    have B: "[nat count ..< length (row_selected t)]
            = nat count # [Suc (nat count) ..< length (row_selected t)]"
      using lt by (simp add: upt_conv_Cons)
    have C: "int (nat count) = count"
      using "1.prems" by simp
    have "row_selected (refresh_selection_loop h entries count iter t) =
            take (Suc (nat count)) ((row_selected t)[nat count := ?v])
            @ map (\<lambda>i. aud_playlist_entry_get_selected h (playlist (model t)) (int i))
                [Suc (nat count) ..< length (row_selected t)]"
      by (simp only: step ih rows' model' cnt length_list_update)
    then show ?thesis
      by (simp only: A B C list.map append_Cons append_Nil append_assoc)
  qed
qed

lemma refresh_selection_loop_keeps:
  "model (refresh_selection_loop h entries count iter t) = model t
   \<and> cursor (refresh_selection_loop h entries count iter t) = cursor t
   \<and> updates_blocked (refresh_selection_loop h entries count iter t) = updates_blocked t
   \<and> length (row_selected (refresh_selection_loop h entries count iter t))
       = length (row_selected t)"
proof (induction h entries count iter t rule: refresh_selection_loop.induct)
  case (1 h entries count iter t)
  show ?case
  proof (cases "count < entries")
    case False
    then show ?thesis by (subst (1 2 3 4) refresh_selection_loop.simps) simp
  next
    case True
    define t' where "t' = (if aud_playlist_entry_get_selected h (playlist (model t)) count
                           then gtk_tree_selection_select_iter t iter
                           else gtk_tree_selection_unselect_iter t iter)"
    have keep: "model t' = model t" "cursor t' = cursor t"
      "updates_blocked t' = updates_blocked t"
      "length (row_selected t') = length (row_selected t)"
      by (auto simp: t'_def gtk_defs split: option.splits)
    have step: "refresh_selection_loop h entries count iter t
                  = refresh_selection_loop h entries (count + 1)
                      (gtk_tree_model_iter_next t' iter) t'"
      using True by (subst refresh_selection_loop.simps) (simp add: Let_def t'_def)
    show ?thesis
      using "1.IH" [OF True t'_def] by (simp only: step keep)
  qed
qed

text \<open>
  C6. On a view that has one row for every entry of its playlist (\<open>n\<close> of them, also
  none), after \<open>treeview_refresh_selection_now\<close> the selected state of every row is the
  selected flag of that entry in the playlist: the selection of the view is the list of
  the playlist's flags, whatever it was before. The model and the cursor are as before;
  the playlist is only read.
\<close>

theorem refresh_selection_now_mirrors_playlist:
  assumes "length (row_selected t) = length (selected_flags h (playlist (model t)))"
  shows "row_selected (treeview_refresh_selection_now h t) = selected_flags h (playlist (model t))
    \<and> (\<forall>i. 0 \<le> i \<and> i < aud_playlist_entry_count h (playlist (model t)) \<longrightarrow>
          row_selected (treeview_refresh_selection_now h t) ! nat i
            = aud_playlist_entry_get_selected h (playlist (model t)) i)
    \<and> model (treeview_refresh_selection_now h t) = model t
    \<and> cursor (treeview_refresh_selection_now h t) = cursor t"
proof -
  let ?fl = "selected_flags h (playlist (model t))"
  let ?t' = "treeview_refresh_selection_now h t"
  have rows: "row_selected ?t' = ?fl"
  proof (cases "?fl = []")
    case True
    then show ?thesis
      using assms by (simp add: treeview_refresh_selection_now_def aud_playlist_entry_count_def)
  next
    case False
    then have ne: "row_selected t \<noteq> []" and pos: "0 < int (length (row_selected t))"
      using assms by auto
    have "row_selected ?t' =
            row_selected (refresh_selection_loop h (int (length (row_selected t))) 0 (Some 0) t)"
      using False ne
      by (simp add: treeview_refresh_selection_now_def aud_playlist_entry_count_def
            gtk_tree_model_get_iter_first_def assms [symmetric])
    also have "\<dots> = take (nat 0) (row_selected t)
           @ map (\<lambda>i. aud_playlist_entry_get_selected h (playlist (model t)) (int i))
               [nat 0 ..< length (row_selected t)]"
      using pos by (intro refresh_selection_loop_rows) simp_all
    also have "\<dots> = ?fl"
      using assms
      by (auto intro!: nth_equalityI
            simp: aud_playlist_entry_get_selected_def aud_playlist_entry_count_def)
    finally show ?thesis .
  qed
  have nth: "row_selected ?t' ! nat i = aud_playlist_entry_get_selected h (playlist (model t)) i"
    if "0 \<le> i \<and> i < aud_playlist_entry_count h (playlist (model t))" for i
    using that
    by (simp add: rows aud_playlist_entry_get_selected_def aud_playlist_entry_count_def)
  have keep: "model ?t' = model t \<and> cursor ?t' = cursor t"
    by (simp add: treeview_refresh_selection_now_def Let_def refresh_selection_loop_keeps)
  show ?thesis using rows nth keep by blast
qed

theorem refresh_selection_now_mirrors_playlist_witness:
  "length (row_selected five_rows) = length (selected_flags five_entries (playlist (model five_rows)))
   \<and> row_selected (treeview_refresh_selection_now five_entries five_rows)
       = [True, False, False, False, True]
   \<and> row_selected (treeview_refresh_selection_now five_entries five_rows) ! nat 4 = True
   \<and> cursor (treeview_refresh_selection_now five_entries five_rows) = Some 2"
proof -
  have l: "length (row_selected five_rows)
             = length (selected_flags five_entries (playlist (model five_rows)))"
    by (simp add: five_rows_def five_entries_def)
  have e: "selected_flags five_entries (playlist (model five_rows))
             = [True, False, False, False, True]"
    "cursor five_rows = Some 2"
    "aud_playlist_entry_count five_entries (playlist (model five_rows)) = 5"
    "aud_playlist_entry_get_selected five_entries (playlist (model five_rows)) 4"
    by (simp_all add: five_rows_def five_entries_def aud_defs)
  show ?thesis
    using l refresh_selection_now_mirrors_playlist [OF l] by (simp add: e)
qed

subsection \<open>Deferring or applying\<close>

lemma refresh_selection_loop_calls:
  "\<exists>cs. gui_calls (refresh_selection_loop h entries count iter t) = gui_calls t @ cs
        \<and> filter is_block cs = []"
proof (induction h entries count iter t rule: refresh_selection_loop.induct)
  case (1 h entries count iter t)
  show ?case
  proof (cases "count < entries")
    case False
    then show ?thesis by (subst refresh_selection_loop.simps) simp
  next
    case True
    define t' where "t' = (if aud_playlist_entry_get_selected h (playlist (model t)) count
                           then gtk_tree_selection_select_iter t iter
                           else gtk_tree_selection_unselect_iter t iter)"
    have one: "\<exists>c. gui_calls t' = gui_calls t @ [c] \<and> \<not> is_block c"
      by (auto simp: t'_def gtk_defs split: option.splits)
    have step: "refresh_selection_loop h entries count iter t
                  = refresh_selection_loop h entries (count + 1)
                      (gtk_tree_model_iter_next t' iter) t'"
      using True by (subst refresh_selection_loop.simps) (simp add: Let_def t'_def)
    from "1.IH" [OF True t'_def] one show ?thesis
      unfolding step by auto
  qed
qed

lemma refresh_selection_now_calls:
  "\<exists>cs. gui_calls (treeview_refresh_selection_now h t) = gui_calls t @ cs
        \<and> filter is_block cs = []"
  using refresh_selection_loop_calls
  by (simp add: treeview_refresh_selection_now_def Let_def)

lemma refresh_selection_now_blocked:
  "updates_blocked (treeview_refresh_selection_now h t) = updates_blocked t"
  by (simp add: treeview_refresh_selection_now_def Let_def refresh_selection_loop_keeps)

lemma set_focus_now_calls:
  "\<exists>cs. gui_calls (treeview_set_focus_now h t f) = gui_calls t @ cs \<and> filter is_block cs = []"
proof -
  have "\<exists>cs. gui_calls (treeview_refresh_selection_now h
                (gtk_tree_view_scroll_to_cell (gtk_tree_view_set_cursor t r) r))
              = gui_calls t @ cs \<and> filter is_block cs = []" for r
    using refresh_selection_now_calls
            [of h "gtk_tree_view_scroll_to_cell (gtk_tree_view_set_cursor t r) r"]
    by (auto simp: gtk_tree_view_scroll_to_cell_def gtk_tree_view_set_cursor_def gui_call_def)
  then show ?thesis
    by (simp add: treeview_set_focus_now_def Let_def)
qed

lemma set_focus_now_blocked:
  "updates_blocked (treeview_set_focus_now h t f) = updates_blocked t"
  by (simp add: treeview_set_focus_now_def Let_def refresh_selection_now_blocked
        gtk_tree_view_scroll_to_cell_def gtk_tree_view_set_cursor_def gui_call_def)

lemma refresh_selection_now_model:
  "model (treeview_refresh_selection_now h t) = model t"
  by (simp add: treeview_refresh_selection_now_def Let_def refresh_selection_loop_keeps)

lemma set_focus_now_model:
  "model (treeview_set_focus_now h t f) = model t"
  by (simp add: treeview_set_focus_now_def Let_def refresh_selection_now_model
        gtk_tree_view_scroll_to_cell_def gtk_tree_view_set_cursor_def gui_call_def)

lemma bracketed_calls:
  assumes "\<exists>cs. gui_calls (run (ui_playlist_widget_block_updates t True))
                  = gui_calls (ui_playlist_widget_block_updates t True) @ cs
                \<and> filter is_block cs = []"
  shows "calls_since t
           (ui_playlist_widget_block_updates
              (run (ui_playlist_widget_block_updates t True)) False)
         = Block_updates True
           # calls_since (ui_playlist_widget_block_updates t True)
               (run (ui_playlist_widget_block_updates t True))
           @ [Block_updates False]
       \<and> filter is_block (calls_since (ui_playlist_widget_block_updates t True)
               (run (ui_playlist_widget_block_updates t True))) = []"
  using assms
  by (auto simp: calls_since_def ui_playlist_widget_block_updates_def gui_call_def)

text \<open>
  C7. While the host reports a pending playlist update, \<open>treeview_set_focus\<close> only sets
  \<open>focus_changed\<close> and stores the row in \<open>focus\<close>: no call is made on the widget, the
  cursor and the selection stay. Otherwise it blocks the widget's updates, runs
  \<open>treeview_set_focus_now\<close> and unblocks them: the calls on the widget are the block,
  those of \<open>treeview_set_focus_now\<close> (made while the updates are blocked, none of them a
  block or unblock) and the unblock, and the flags of the model stay.
  \<open>treeview_refresh_selection\<close> does the same with \<open>selection_changed\<close> and
  \<open>treeview_refresh_selection_now\<close>.
\<close>

theorem set_focus_defers_or_applies:
  fixes h :: host and t :: tree_view and f :: int
  defines "t1 \<equiv> ui_playlist_widget_block_updates t True"
  shows "(aud_playlist_update_pending h \<longrightarrow>
            treeview_set_focus h t f
              = t\<lparr>model := (model t)\<lparr>focus_changed := True, focus := f\<rparr>\<rparr>
          \<and> cursor (treeview_set_focus h t f) = cursor t
          \<and> row_selected (treeview_set_focus h t f) = row_selected t
          \<and> gui_calls (treeview_set_focus h t f) = gui_calls t
          \<and> treeview_refresh_selection h t
              = t\<lparr>model := (model t)\<lparr>selection_changed := True\<rparr>\<rparr>
          \<and> gui_calls (treeview_refresh_selection h t) = gui_calls t)
       \<and> (\<not> aud_playlist_update_pending h \<longrightarrow>
            treeview_set_focus h t f
              = ui_playlist_widget_block_updates (treeview_set_focus_now h t1 f) False
          \<and> calls_since t (treeview_set_focus h t f)
              = Block_updates True # calls_since t1 (treeview_set_focus_now h t1 f)
                @ [Block_updates False]
          \<and> filter is_block (calls_since t1 (treeview_set_focus_now h t1 f)) = []
          \<and> updates_blocked (treeview_set_focus_now h t1 f)
          \<and> \<not> updates_blocked (treeview_set_focus h t f)
          \<and> model (treeview_set_focus h t f) = model t
          \<and> treeview_refresh_selection h t
              = ui_playlist_widget_block_updates (treeview_refresh_selection_now h t1) False
          \<and> calls_since t (treeview_refresh_selection h t)
              = Block_updates True # calls_since t1 (treeview_refresh_selection_now h t1)
                @ [Block_updates False]
          \<and> filter is_block (calls_since t1 (treeview_refresh_selection_now h t1)) = []
          \<and> updates_blocked (treeview_refresh_selection_now h t1)
          \<and> \<not> updates_blocked (treeview_refresh_selection h t)
          \<and> model (treeview_refresh_selection h t) = model t)"
proof -
  have blocked: "updates_blocked t1"
    by (simp add: t1_def ui_playlist_widget_block_updates_def gui_call_def)
  have unblocked: "\<not> updates_blocked (ui_playlist_widget_block_updates x False)"
    and same_model: "model (ui_playlist_widget_block_updates x b) = model x" for x b
    by (simp_all add: ui_playlist_widget_block_updates_def gui_call_def)
  have pending: "aud_playlist_update_pending h \<Longrightarrow>
            treeview_set_focus h t f
              = t\<lparr>model := (model t)\<lparr>focus_changed := True, focus := f\<rparr>\<rparr>
          \<and> treeview_refresh_selection h t
              = t\<lparr>model := (model t)\<lparr>selection_changed := True\<rparr>\<rparr>"
    by (simp add: treeview_set_focus_def treeview_refresh_selection_def)
  have focus_eq: "\<not> aud_playlist_update_pending h \<Longrightarrow>
            treeview_set_focus h t f
              = ui_playlist_widget_block_updates (treeview_set_focus_now h t1 f) False"
    and refresh_eq: "\<not> aud_playlist_update_pending h \<Longrightarrow>
            treeview_refresh_selection h t
              = ui_playlist_widget_block_updates (treeview_refresh_selection_now h t1) False"
    by (simp_all add: treeview_set_focus_def treeview_refresh_selection_def Let_def t1_def)
  have focus_calls:
    "calls_since t (ui_playlist_widget_block_updates (treeview_set_focus_now h t1 f) False)
       = Block_updates True # calls_since t1 (treeview_set_focus_now h t1 f)
         @ [Block_updates False]
     \<and> filter is_block (calls_since t1 (treeview_set_focus_now h t1 f)) = []"
    unfolding t1_def
    by (rule bracketed_calls [where run = "\<lambda>x. treeview_set_focus_now h x f"])
       (rule set_focus_now_calls)
  have refresh_calls:
    "calls_since t (ui_playlist_widget_block_updates (treeview_refresh_selection_now h t1) False)
       = Block_updates True # calls_since t1 (treeview_refresh_selection_now h t1)
         @ [Block_updates False]
     \<and> filter is_block (calls_since t1 (treeview_refresh_selection_now h t1)) = []"
    unfolding t1_def
    by (rule bracketed_calls [where run = "treeview_refresh_selection_now h"])
       (rule refresh_selection_now_calls)
  show ?thesis
    using pending focus_eq refresh_eq focus_calls refresh_calls blocked unblocked
    by (simp add: set_focus_now_blocked refresh_selection_now_blocked same_model
          set_focus_now_model refresh_selection_now_model t1_def)
qed

theorem set_focus_defers_or_applies_witness:
  "aud_playlist_update_pending five_entries_updating
   \<and> focus_changed (model (treeview_set_focus five_entries_updating five_rows 3))
   \<and> focus (model (treeview_set_focus five_entries_updating five_rows 3)) = 3
   \<and> cursor (treeview_set_focus five_entries_updating five_rows 3) = Some 2
   \<and> gui_calls (treeview_set_focus five_entries_updating five_rows 3) = []
   \<and> selection_changed (model (treeview_refresh_selection five_entries_updating five_rows))
   \<and> \<not> aud_playlist_update_pending five_entries
   \<and> gui_calls (treeview_set_focus five_entries five_rows 3)
       = [Block_updates True, Set_cursor 3, Scroll_to_cell 3, Select_iter (Some 0),
          Unselect_iter (Some 1), Unselect_iter (Some 2), Unselect_iter (Some 3),
          Select_iter (Some 4), Block_updates False]
   \<and> cursor (treeview_set_focus five_entries five_rows 3) = Some 3
   \<and> \<not> updates_blocked (treeview_set_focus five_entries five_rows 3)
   \<and> \<not> focus_changed (model (treeview_set_focus five_entries five_rows 3))"
proof -
  have p: "aud_playlist_update_pending five_entries_updating"
    and n: "\<not> aud_playlist_update_pending five_entries"
    by (simp_all add: five_entries_updating_def five_entries_def aud_playlist_update_pending_def)
  have e: "cursor five_rows = Some 2" "gui_calls five_rows = []"
    by (simp_all add: five_rows_def)
  have now: "gui_calls (treeview_set_focus_now five_entries
                 (ui_playlist_widget_block_updates five_rows True) 3)
       = [Block_updates True, Set_cursor 3, Scroll_to_cell 3, Select_iter (Some 0),
          Unselect_iter (Some 1), Unselect_iter (Some 2), Unselect_iter (Some 3),
          Select_iter (Some 4)]"
    "cursor (treeview_set_focus_now five_entries
                 (ui_playlist_widget_block_updates five_rows True) 3) = Some 3"
    "\<not> focus_changed (model (treeview_set_focus_now five_entries
                 (ui_playlist_widget_block_updates five_rows True) 3))"
    by code_simp+
  have b: "gui_calls (ui_playlist_widget_block_updates x False)
             = gui_calls x @ [Block_updates False]"
    "cursor (ui_playlist_widget_block_updates x False) = cursor x"
    "model (ui_playlist_widget_block_updates x False) = model x"
    "\<not> updates_blocked (ui_playlist_widget_block_updates x False)" for x
    by (simp_all add: ui_playlist_widget_block_updates_def gui_call_def)
  show ?thesis
    using p n set_focus_defers_or_applies [of five_entries_updating five_rows 3]
      set_focus_defers_or_applies [of five_entries five_rows 3]
    by (simp add: e now b)
qed

end
